theory Spec2Isabelle
  imports Main "HOL-Library.Multiset"
begin

section \<open>Data model of \<open>controller/git.go\<close>\<close>

text \<open>
  The structs of the source are records with the source's field names.  A Go \<open>string\<close>
  is a byte sequence, here a \<open>string\<close> (a list of characters).  The \<open>int64\<close> of
  \<open>Tag.When\<close> is only ever compared, never added to, so it is an \<open>int\<close>.
\<close>

record Ref =
  Ref :: string

record Source =
  Url :: string
  Branch :: string
  TagFilter :: string
  PathSearch :: "string list option"  \<comment> \<open>a Go slice: \<open>None\<close> is the \<open>nil\<close> slice\<close>
  PrivateKey :: string

record Payload =
  Source :: Source
  Version :: Ref

record Config =
  Input :: Payload
  Path :: string

record Tag =
  Name :: string
  Commit :: string
  When :: int

text \<open>\<open>RefResult\<close> is \<open>[]map[string]string\<close>; the \<open>nil\<close> result is the empty list.\<close>

type_synonym RefResult = "(string \<rightharpoonup> string) list"

text \<open>
  \<open>log.Fatal\<close> ends the process; a nil dereference, an index out of range and
  \<open>regexp.MustCompilePOSIX\<close> on a bad pattern panic.  Both are results of the model.
\<close>

datatype error = Fatal | Panic

section \<open>The Git backend and the library calls\<close>

text \<open>
  An \<open>Oid\<close> is modelled by its hexadecimal form, so \<open>id.String()\<close> is the identity.
  Every call the source makes into git2go is one field of \<open>Repository\<close>: \<open>None\<close> is
  the call's error return.  Nothing relates the fields to each other, so what is proved
  holds for whatever the backend answers.
\<close>

type_synonym Oid = string

datatype ObjectType = ObjectCommit | ObjectTag | ObjectTree | ObjectBlob

record Time =
  Unix :: int
  String :: string

record Signature =
  sig_Name :: string
  sig_When :: Time

record Object =
  obj_Id :: Oid
  obj_Type :: ObjectType

record CommitObj =
  Id :: Oid
  TreeId :: Oid
  Committer :: Signature
  Message :: string

record Tree =
  tree_Id :: Oid

record TagObj =
  Tagger :: "Signature option"  \<comment> \<open>\<open>Tagger()\<close> is a pointer\<close>

record Reference =
  Target :: "Oid option"  \<comment> \<open>\<open>Target()\<close> is \<open>nil\<close> for a symbolic reference\<close>

record DiffDelta =
  OldFile_Path :: string
  Patch_ok :: bool  \<comment> \<open>whether \<open>diff.Patch\<close> and \<open>patch.String\<close> succeed for this delta\<close>

record Repository =
  References_Lookup :: "string \<rightharpoonup> Reference"
  LookupBranch_Remote :: "string \<rightharpoonup> Reference"
  Lookup :: "Oid \<rightharpoonup> Object"
  LookupCommit :: "Oid \<rightharpoonup> CommitObj"
  LookupTag :: "Oid \<rightharpoonup> TagObj"
  LookupTree :: "Oid \<rightharpoonup> Tree"
  Odb_ForEach :: "Oid list option"  \<comment> \<open>\<open>None\<close>: \<open>repo.Odb()\<close> fails\<close>
  Tags_Foreach :: "(string \<times> Oid) list"
  DiffTreeToTree :: "Tree \<Rightarrow> Tree \<Rightarrow> DiffDelta list option"

text \<open>
  The calls that are not methods of a repository: opening one, parsing an object id,
  compiling a POSIX regular expression (\<open>None\<close>: the pattern does not compile), and
  \<open>sort.Slice\<close> of the Go library, which is given the element comparison that the
  source's index closure computes.
\<close>

record Env =
  OpenRepository :: "string \<rightharpoonup> Repository"
  NewOid :: "string \<rightharpoonup> Oid"
  MustCompilePOSIX :: "string \<rightharpoonup> (string \<Rightarrow> bool)"
  sort_Slice :: "(Tag \<Rightarrow> Tag \<Rightarrow> bool) \<Rightarrow> Tag list \<Rightarrow> Tag list"

text \<open>
  What \<open>sort.Slice\<close> promises: the slice is permuted, and afterwards no element is
  \<open>less\<close> than an element before it.  It does not promise stability.
\<close>

definition sorts :: "('a \<Rightarrow> 'a \<Rightarrow> bool) \<Rightarrow> 'a list \<Rightarrow> 'a list \<Rightarrow> bool" where
  "sorts lessf xs ys \<longleftrightarrow> mset ys = mset xs \<and> sorted_wrt (\<lambda>a b. \<not> lessf b a) ys"

text \<open>
  The insertion sort that \<open>sort.Slice\<close> runs on a slice of at most six elements (in
  every version of the Go library; on longer slices the algorithm depends on the
  version).  Each element in turn is swapped towards the front while it is \<open>less\<close>
  than its left neighbour.  The sorted prefix is held reversed, its last element first.
  The general properties below do not use it: they assume only that \<open>sort.Slice\<close>
  sorts.  It is the \<open>sort.Slice\<close> of the concrete repository, whose tag lists are
  short.
\<close>

fun insertLess :: "('a \<Rightarrow> 'a \<Rightarrow> bool) \<Rightarrow> 'a \<Rightarrow> 'a list \<Rightarrow> 'a list" where
  "insertLess lessf x [] = [x]"
| "insertLess lessf x (y # ys) =
     (if lessf x y then y # insertLess lessf x ys else x # y # ys)"

definition insertionSort :: "('a \<Rightarrow> 'a \<Rightarrow> bool) \<Rightarrow> 'a list \<Rightarrow> 'a list" where
  "insertionSort lessf xs = rev (foldl (\<lambda>p x. insertLess lessf x p) [] xs)"

section \<open>\<open>strings.Trim\<close>\<close>

text \<open>
  \<open>strings.Trim(s, cutset)\<close> with an ASCII cutset removes, byte by byte, every
  trailing and then every leading byte that occurs in the cutset.
\<close>

definition trimRight :: "string \<Rightarrow> string \<Rightarrow> string" where
  "trimRight s cutset = rev (dropWhile (\<lambda>c. c \<in> set cutset) (rev s))"

definition trimLeft :: "string \<Rightarrow> string \<Rightarrow> string" where
  "trimLeft s cutset = dropWhile (\<lambda>c. c \<in> set cutset) s"

definition Trim :: "string \<Rightarrow> string \<Rightarrow> string" where
  "Trim s cutset = (if s = [] \<or> cutset = [] then s else trimLeft (trimRight s cutset) cutset)"

section \<open>The tag-filter policy\<close>

definition tagWhen :: "Repository \<Rightarrow> Oid \<Rightarrow> error + int" where
  "tagWhen repo oid =
     (case Lookup repo oid of
        None \<Rightarrow> Inl Fatal
      | Some obj \<Rightarrow>
          if obj_Type obj = ObjectTag then
            (case LookupTag repo oid of
               None \<Rightarrow> Inl Fatal
             | Some tg \<Rightarrow>
                 (case Tagger tg of
                    None \<Rightarrow> Inl Panic
                  | Some s \<Rightarrow> Inr (Unix (sig_When s))))
          else if obj_Type obj = ObjectCommit then
            (case LookupCommit repo oid of
               None \<Rightarrow> Inl Fatal
             | Some c \<Rightarrow> Inr (Unix (sig_When (Committer c))))
          else Inr 0)"

text \<open>
  The callback of \<open>repo.Tags.Foreach\<close>: the timestamp is looked up before the pattern is
  compiled, and the pattern is compiled at every tag, so a bad pattern panics only when
  there is a tag.  The name that is matched and stored is the full reference name.
\<close>

fun listTags_Foreach ::
  "Env \<Rightarrow> Repository \<Rightarrow> string \<Rightarrow> (string \<times> Oid) list \<Rightarrow> Tag list \<Rightarrow> error + Tag list" where
  "listTags_Foreach env repo tagFilter [] result = Inr result"
| "listTags_Foreach env repo tagFilter ((name, oid) # rest) result =
     (case tagWhen repo oid of
        Inl e \<Rightarrow> Inl e
      | Inr w \<Rightarrow>
          (let t = \<lparr>Name = name, Commit = oid, When = w\<rparr> in
           case MustCompilePOSIX env tagFilter of
             None \<Rightarrow> Inl Panic
           | Some re \<Rightarrow>
               if re name then listTags_Foreach env repo tagFilter rest (result @ [t])
               else listTags_Foreach env repo tagFilter rest result))"

definition listTags :: "Env \<Rightarrow> string \<Rightarrow> string \<Rightarrow> error + Tag list" where
  "listTags env path tagFilter =
     (case OpenRepository env path of
        None \<Rightarrow> Inl Fatal
      | Some repo \<Rightarrow> listTags_Foreach env repo tagFilter (Tags_Foreach repo) [])"

definition lastTag_less :: "Tag \<Rightarrow> Tag \<Rightarrow> bool" where
  "lastTag_less a b =
     (if When a < When b then True
      else if When a > When b then False
      else When a < When b)"

definition lastTag :: "Env \<Rightarrow> Tag list \<Rightarrow> error + RefResult" where
  "lastTag env listTag =
     (let sorted = sort_Slice env lastTag_less listTag in
      if sorted = [] then Inl Panic
      else
        (let lt = sorted ! (length sorted - 1) in
         Inr [[''ref'' \<mapsto> Trim (Name lt) ''refs/tags/'']]))"

definition lastTags_less :: "Tag \<Rightarrow> Tag \<Rightarrow> bool" where
  "lastTags_less a b =
     (if When a > When b then True
      else if When a < When b then False
      else When a > When b)"

fun lastTags_range :: "string \<Rightarrow> Tag list \<Rightarrow> RefResult \<Rightarrow> RefResult" where
  "lastTags_range ref [] result = result"
| "lastTags_range ref (t # ts) result =
     (let lt = Trim (Name t) ''refs/tags/'';
          result' = [''ref'' \<mapsto> lt] # result
      in if ref = lt then result' else lastTags_range ref ts result')"

definition lastTags :: "Env \<Rightarrow> Tag list \<Rightarrow> Config \<Rightarrow> RefResult" where
  "lastTags env listTag config =
     lastTags_range (Ref (Version (Input config))) (sort_Slice env lastTags_less listTag) []"

definition checkTagFilter :: "Env \<Rightarrow> Config \<Rightarrow> error + RefResult" where
  "checkTagFilter env config =
     (case listTags env (Path config) (TagFilter (Source (Input config))) of
        Inl e \<Rightarrow> Inl e
      | Inr list \<Rightarrow>
          if Ref (Version (Input config)) \<noteq> '''' then Inr (lastTags env list config)
          else if list \<noteq> [] then lastTag env list
          else Inr [])"

section \<open>The plain-commit policy\<close>

text \<open>
  \<open>repo.LookupCommit\<close> on the result of \<open>Target()\<close> or of a failed \<open>git.NewOid\<close>: a
  \<open>nil\<close> id does not reach a commit, the process dies.
\<close>

definition LookupCommit_ptr :: "Repository \<Rightarrow> Oid option \<Rightarrow> error + CommitObj" where
  "LookupCommit_ptr repo p =
     (case p of
        None \<Rightarrow> Inl Panic
      | Some oid \<Rightarrow>
          (case LookupCommit repo oid of None \<Rightarrow> Inl Fatal | Some c \<Rightarrow> Inr c))"

fun lastCommits_ForEach :: "Repository \<Rightarrow> Oid list \<Rightarrow> string list \<Rightarrow> error + string list" where
  "lastCommits_ForEach repo [] allCommitList = Inr allCommitList"
| "lastCommits_ForEach repo (oid # rest) allCommitList =
     (case Lookup repo oid of
        None \<Rightarrow> Inl Fatal
      | Some obj \<Rightarrow>
          if obj_Type obj = ObjectCommit
          then lastCommits_ForEach repo rest (allCommitList @ [obj_Id obj])
          else lastCommits_ForEach repo rest allCommitList)"

fun lastCommits_range :: "string \<Rightarrow> string list \<Rightarrow> RefResult \<Rightarrow> RefResult" where
  "lastCommits_range ref [] result = result"
| "lastCommits_range ref (c # cs) result =
     (let result' = [''ref'' \<mapsto> c] # result
      in if ref = c then result' else lastCommits_range ref cs result')"

definition lastCommits :: "Env \<Rightarrow> Config \<Rightarrow> error + RefResult" where
  "lastCommits env config =
     (case OpenRepository env (Path config) of
        None \<Rightarrow> Inl Fatal
      | Some repo \<Rightarrow>
          (case Odb_ForEach repo of
             None \<Rightarrow> Inl Fatal
           | Some ids \<Rightarrow>
               (case lastCommits_ForEach repo ids [] of
                  Inl e \<Rightarrow> Inl e
                | Inr allCommitList \<Rightarrow>
                    Inr (lastCommits_range (Ref (Version (Input config))) allCommitList []))))"

definition checkCommit :: "Env \<Rightarrow> Config \<Rightarrow> error + RefResult" where
  "checkCommit env config =
     (if Ref (Version (Input config)) \<noteq> '''' then lastCommits env config
      else
        (case OpenRepository env (Path config) of
           None \<Rightarrow> Inl Fatal
         | Some repo \<Rightarrow>
             (case References_Lookup repo
                     (''refs/remotes/origin/'' @ Branch (Source (Input config))) of
                None \<Rightarrow> Inl Fatal
              | Some remoteBranch \<Rightarrow>
                  (case LookupCommit_ptr repo (Target remoteBranch) of
                     Inl e \<Rightarrow> Inl e
                   | Inr commit \<Rightarrow> Inr [[''ref'' \<mapsto> Id commit]]))))"

section \<open>The path-filter policy\<close>

definition lookupCommit :: "Env \<Rightarrow> Repository \<Rightarrow> string \<Rightarrow> error + Tree" where
  "lookupCommit env repo ref =
     (case NewOid env ref of
        None \<Rightarrow> Inl Fatal
      | Some oid \<Rightarrow>
          (case LookupCommit repo oid of
             None \<Rightarrow> Inl Fatal
           | Some obj \<Rightarrow>
               (case LookupTree repo (TreeId obj) of
                  None \<Rightarrow> Inl Fatal
                | Some tree \<Rightarrow> Inr tree)))"

text \<open>
  \<open>diff.ForEach\<close>: the file callback returns an error when the patch of a delta cannot
  be made, before it records the path; the error stops the iteration and the source
  does not look at it.
\<close>

fun diff_ForEach :: "DiffDelta list \<Rightarrow> string list \<Rightarrow> string list" where
  "diff_ForEach [] files = files"
| "diff_ForEach (file # rest) files =
     (if \<not> Patch_ok file then files
      else diff_ForEach rest (files @ [OldFile_Path file]))"

definition diff :: "Env \<Rightarrow> Config \<Rightarrow> error + string list" where
  "diff env config =
     (case OpenRepository env (Path config) of
        None \<Rightarrow> Inl Fatal
      | Some repo \<Rightarrow>
          (case LookupBranch_Remote repo (''origin/'' @ Branch (Source (Input config))) of
             None \<Rightarrow> Inl Fatal
           | Some localBranch \<Rightarrow>
               (case LookupCommit_ptr repo (Target localBranch) of
                  Inl e \<Rightarrow> Inl e
                | Inr commit \<Rightarrow>
                    (case LookupTree repo (TreeId commit) of
                       None \<Rightarrow> Inl Fatal
                     | Some originalTree \<Rightarrow>
                         (case lookupCommit env repo (Ref (Version (Input config))) of
                            Inl e \<Rightarrow> Inl e
                          | Inr refTree \<Rightarrow>
                              (case DiffTreeToTree repo originalTree refTree of
                                 None \<Rightarrow> Inl Fatal
                               | Some deltas \<Rightarrow> Inr (diff_ForEach deltas [])))))))"

text \<open>The inner loop of \<open>checkPaths\<close>: is some changed path equal to \<open>pathSearch\<close>?\<close>

fun checkPaths_inner :: "string \<Rightarrow> string list \<Rightarrow> bool" where
  "checkPaths_inner pathSearch [] = False"
| "checkPaths_inner pathSearch (pf # rest) =
     (if pf = pathSearch then True else checkPaths_inner pathSearch rest)"

text \<open>The outer loop: \<open>diff(config)\<close> is called anew for every watched path.\<close>

fun checkPaths_range :: "Env \<Rightarrow> Config \<Rightarrow> string list \<Rightarrow> error + RefResult" where
  "checkPaths_range env config [] = Inr []"
| "checkPaths_range env config (pathSearch # rest) =
     (case diff env config of
        Inl e \<Rightarrow> Inl e
      | Inr files \<Rightarrow>
          if checkPaths_inner pathSearch files then checkCommit env config
          else checkPaths_range env config rest)"

definition checkPaths :: "Env \<Rightarrow> Config \<Rightarrow> error + RefResult" where
  "checkPaths env config =
     (if Ref (Version (Input config)) = '''' then checkCommit env config
      else
        (case PathSearch (Source (Input config)) of
           None \<Rightarrow> Inr []
         | Some paths \<Rightarrow> checkPaths_range env config paths))"

section \<open>\<open>Check\<close>\<close>

text \<open>The empty branch name is replaced by \<open>master\<close>, in the payload the config points to.\<close>

definition defaultBranch :: "Config \<Rightarrow> Config" where
  "defaultBranch config =
     (if Branch (Source (Input config)) = ''''
      then config\<lparr>Input := (Input config)\<lparr>Source :=
             (Source (Input config))\<lparr>Branch := ''master''\<rparr>\<rparr>\<rparr>
      else config)"

definition Check :: "Env \<Rightarrow> Config \<Rightarrow> error + RefResult" where
  "Check env config0 =
     (let config = defaultBranch config0 in
      if TagFilter (Source (Input config)) \<noteq> '''' then checkTagFilter env config
      else if PathSearch (Source (Input config)) \<noteq> None then checkPaths env config
      else checkCommit env config)"

section \<open>\<open>GetMetaData\<close>\<close>

definition GetMetaData :: "Env \<Rightarrow> string \<Rightarrow> Payload \<Rightarrow> error + RefResult" where
  "GetMetaData env path input =
     (case OpenRepository env path of
        None \<Rightarrow> Inl Fatal
      | Some repo \<Rightarrow>
          (let obj = References_Lookup repo (''refs/tags/'' @ Ref (Version input));
               oid = (case obj of
                        Some r \<Rightarrow> Target r
                      | None \<Rightarrow> NewOid env (Ref (Version input)))
           in case LookupCommit_ptr repo oid of
                Inl e \<Rightarrow> Inl e
              | Inr c \<Rightarrow>
                  (let commit = [''name'' \<mapsto> ''commit'', ''value'' \<mapsto> Id c];
                       author = [''name'' \<mapsto> ''author'', ''value'' \<mapsto> sig_Name (Committer c)];
                       whenCommit = [''name'' \<mapsto> ''date'',
                                     ''value'' \<mapsto> String (sig_When (Committer c))];
                       branch = [''name'' \<mapsto> ''branch'', ''value'' \<mapsto> Branch (Source input)];
                       tag0 = [''name'' \<mapsto> ''tag'', ''value'' \<mapsto> ''''];
                       tag = (if obj \<noteq> None then tag0(''value'' \<mapsto> Ref (Version input)) else tag0);
                       message = [''name'' \<mapsto> ''message'', ''value'' \<mapsto> Message c]
                   in Inr [commit, author, whenCommit, branch, tag, message])))"

section \<open>\<open>Init\<close>\<close>

text \<open>
  The part of the machine that \<open>Init\<close> reads and writes: the regular files with their
  contents, the latest write first, and the directories that were made.  A path
  exists when it is such a file or directory, or when a file lies under it, as in a
  file system.  \<open>os.MkdirAll\<close> and \<open>ioutil.WriteFile\<close> return errors that the source
  drops; the model lets them succeed.
\<close>

record World =
  files :: "(string \<times> string) list"
  dirs :: "string list"

text \<open>
  The commands \<open>Init\<close> runs outside the process: \<open>ssh-keygen -y -f /root/.ssh/id_rsa\<close>,
  whose output depends on the private key file (\<open>None\<close>: the pipe or the command
  fails), and the clone and the fetch of the repository (\<open>False\<close>: one of their steps
  fails and \<open>log.Fatal\<close> ends the process).
\<close>

record OS =
  ssh_keygen :: "string option \<Rightarrow> string option"
  Clone :: "string \<Rightarrow> string \<Rightarrow> string \<Rightarrow> bool"  \<comment> \<open>url, path, branch\<close>
  Fetch :: "string \<Rightarrow> bool"  \<comment> \<open>path\<close>

definition sshKeyPath :: string where
  "sshKeyPath = ''/root/.ssh/''"

definition ReadFile :: "World \<Rightarrow> string \<Rightarrow> string option" where
  "ReadFile w path = map_of (files w) path"

text \<open>\<open>under dir f\<close>: the file path \<open>f\<close> lies in the directory \<open>dir\<close> or below it.\<close>

definition under :: "string \<Rightarrow> string \<Rightarrow> bool" where
  "under dir f \<longleftrightarrow>
     dir \<noteq> [] \<and>
     (let d = (if last dir = CHR ''/'' then dir else dir @ ''/'')
      in length d < length f \<and> take (length d) f = d)"

definition Stat :: "World \<Rightarrow> string \<Rightarrow> bool" where
  "Stat w path \<longleftrightarrow>
     path \<in> set (dirs w) \<or> list_ex (\<lambda>(f, data). f = path \<or> under path f) (files w)"

definition exists :: "World \<Rightarrow> string \<Rightarrow> bool" where
  "exists w path = (if \<not> Stat w path then False else True)"

definition MkdirAll :: "World \<Rightarrow> string \<Rightarrow> World" where
  "MkdirAll w path = w\<lparr>dirs := path # dirs w\<rparr>"

definition WriteFile :: "World \<Rightarrow> string \<Rightarrow> string \<Rightarrow> World" where
  "WriteFile w path data = w\<lparr>files := (path, data) # files w\<rparr>"

definition createSshPubKey :: "OS \<Rightarrow> World \<Rightarrow> World \<times> error option" where
  "createSshPubKey os w =
     (case ssh_keygen os (ReadFile w ''/root/.ssh/id_rsa'') of
        None \<Rightarrow> (w, Some Fatal)
      | Some out \<Rightarrow> (WriteFile w (sshKeyPath @ ''id_rsa.pub'') out, None))"

text \<open>
  \<open>Init\<close> returns nothing; the model returns the world it leaves behind, also when it
  dies, and the config with the branch it has set.
\<close>

definition Init :: "OS \<Rightarrow> Config \<Rightarrow> World \<Rightarrow> World \<times> (error + Config)" where
  "Init os config0 w0 =
     (let (w, died) =
            (if \<not> exists w0 sshKeyPath then
               (let w1 = MkdirAll w0 sshKeyPath;
                    w2 = WriteFile w1 (sshKeyPath @ ''id_rsa'')
                           (PrivateKey (Source (Input config0)))
                in createSshPubKey os w2)
             else (w0, None))
      in case died of
           Some e \<Rightarrow> (w, Inl e)
         | None \<Rightarrow>
             (let config = defaultBranch config0 in
              if exists w (Path config @ ''/.git'') then
                (if Fetch os (Path config) then (w, Inr config) else (w, Inl Fatal))
              else
                (if Clone os (Url (Source (Input config))) (Path config)
                      (Branch (Source (Input config)))
                 then (MkdirAll w (Path config @ ''/.git''), Inr config)
                 else (w, Inl Fatal))))"

section \<open>Notions used to state the properties\<close>

text \<open>The map \<open>{"ref": s}\<close> that the policies put into their result.\<close>

definition refEntry :: "string \<Rightarrow> (string \<rightharpoonup> string)" where
  "refEntry s = [''ref'' \<mapsto> s]"

text \<open>The ref string under which the tag-filter policy presents a tag.\<close>

definition tagRef :: "Tag \<Rightarrow> string" where
  "tagRef t = Trim (Name t) ''refs/tags/''"

text \<open>The map \<open>{"name": n, "value": v}\<close> of \<open>GetMetaData\<close>.\<close>

definition metaField :: "string \<Rightarrow> string \<Rightarrow> (string \<rightharpoonup> string)" where
  "metaField n v = [''name'' \<mapsto> n, ''value'' \<mapsto> v]"

text \<open>The prefix of a list up to and including its first element that satisfies \<open>P\<close>.\<close>

fun upto_first :: "('a \<Rightarrow> bool) \<Rightarrow> 'a list \<Rightarrow> 'a list" where
  "upto_first P [] = []"
| "upto_first P (x # xs) = (if P x then [x] else x # upto_first P xs)"

text \<open>
  The name of a tag without the prefix \<open>refs/tags/\<close>, the characters of that prefix,
  and the tags whose name \<open>refs/tags/short\<close> has a non-empty \<open>short\<close> that neither begins
  nor ends with one of these characters.
\<close>

definition shortName :: "Tag \<Rightarrow> string" where
  "shortName t = drop (length ''refs/tags/'') (Name t)"

definition cutChars :: "char set" where
  "cutChars = {CHR ''r'', CHR ''e'', CHR ''f'', CHR ''s'', CHR ''/'', CHR ''t'', CHR ''a'', CHR ''g''}"

definition plainName :: "Tag \<Rightarrow> bool" where
  "plainName t \<longleftrightarrow>
     take (length ''refs/tags/'') (Name t) = ''refs/tags/'' \<and>
     shortName t \<noteq> [] \<and> hd (shortName t) \<notin> cutChars \<and> last (shortName t) \<notin> cutChars"

text \<open>The two key files of \<open>Init\<close>.\<close>

definition keyFiles :: "World \<Rightarrow> string option \<times> string option" where
  "keyFiles w = (ReadFile w (sshKeyPath @ ''id_rsa''), ReadFile w (sshKeyPath @ ''id_rsa.pub''))"

section \<open>A concrete repository\<close>

text \<open>
  Three commits on \<open>origin/master\<close>, the oldest first: \<open>oidA\<close> (time 10), \<open>oidB\<close>
  (time 20), \<open>oidC\<close> (time 30, the tip).  The tip differs from \<open>oidA\<close> in
  \<open>docs/readme.md\<close> only.  The tags are a parameter; they are lightweight.
\<close>

definition oidA :: Oid where "oidA = ''aaaaaaaaaaaaaaaaaaaaaaaaaaaaaaaaaaaaaaaa''"
definition oidB :: Oid where "oidB = ''bbbbbbbbbbbbbbbbbbbbbbbbbbbbbbbbbbbbbbbb''"
definition oidC :: Oid where "oidC = ''cccccccccccccccccccccccccccccccccccccccc''"
definition treeA :: Oid where "treeA = ''1111111111111111111111111111111111111111''"
definition treeB :: Oid where "treeB = ''2222222222222222222222222222222222222222''"
definition treeC :: Oid where "treeC = ''3333333333333333333333333333333333333333''"

definition ex_commit :: "Oid \<Rightarrow> Oid \<Rightarrow> int \<Rightarrow> string \<Rightarrow> string \<Rightarrow> CommitObj" where
  "ex_commit oid tree secs shown msg =
     \<lparr>Id = oid, TreeId = tree,
      Committer = \<lparr>sig_Name = ''alice'', sig_When = \<lparr>Unix = secs, String = shown\<rparr>\<rparr>,
      Message = msg\<rparr>"

definition ex_repo :: "(string \<times> Oid) list \<Rightarrow> Repository" where
  "ex_repo tags =
     \<lparr>References_Lookup =
        map_of ((''refs/remotes/origin/master'', \<lparr>Target = Some oidC\<rparr>)
                # map (\<lambda>(name, oid). (name, \<lparr>Target = Some oid\<rparr>)) tags),
      LookupBranch_Remote = map_of [(''origin/master'', \<lparr>Target = Some oidC\<rparr>)],
      Lookup =
        map_of [(oidA, \<lparr>obj_Id = oidA, obj_Type = ObjectCommit\<rparr>),
                (oidB, \<lparr>obj_Id = oidB, obj_Type = ObjectCommit\<rparr>),
                (oidC, \<lparr>obj_Id = oidC, obj_Type = ObjectCommit\<rparr>),
                (treeA, \<lparr>obj_Id = treeA, obj_Type = ObjectTree\<rparr>),
                (treeB, \<lparr>obj_Id = treeB, obj_Type = ObjectTree\<rparr>),
                (treeC, \<lparr>obj_Id = treeC, obj_Type = ObjectTree\<rparr>)],
      LookupCommit =
        map_of [(oidA, ex_commit oidA treeA 10 ''1970-01-01 00:00:10 +0000 UTC'' ''first''),
                (oidB, ex_commit oidB treeB 20 ''1970-01-01 00:00:20 +0000 UTC'' ''second''),
                (oidC, ex_commit oidC treeC 30 ''1970-01-01 00:00:30 +0000 UTC'' ''third'')],
      LookupTag = Map.empty,
      LookupTree =
        map_of [(treeA, \<lparr>tree_Id = treeA\<rparr>), (treeB, \<lparr>tree_Id = treeB\<rparr>),
                (treeC, \<lparr>tree_Id = treeC\<rparr>)],
      Odb_ForEach = Some [treeA, oidC, treeB, oidB, oidA, treeC],
      Tags_Foreach = tags,
      DiffTreeToTree =
        (\<lambda>old new.
           if tree_Id old = treeC \<and> tree_Id new = treeA
           then Some [\<lparr>OldFile_Path = ''docs/readme.md'', Patch_ok = True\<rparr>]
           else Some [])\<rparr>"

text \<open>
  The repository is at \<open>/tmp/repo\<close>.  An object id is forty hexadecimal digits.  Two
  patterns compile: \<open>v.*\<close>, which matches the names that contain a \<open>v\<close>, and \<open>.*\<close>,
  which matches every name.  \<open>sort.Slice\<close> is the insertion sort.
\<close>

definition ex_env :: "(string \<times> Oid) list \<Rightarrow> Env" where
  "ex_env tags =
     \<lparr>OpenRepository = (\<lambda>path. if path = ''/tmp/repo'' then Some (ex_repo tags) else None),
      NewOid = (\<lambda>s. if length s = 40 \<and> list_all (\<lambda>c. c \<in> set ''0123456789abcdef'') s
                     then Some s else None),
      MustCompilePOSIX =
        (\<lambda>p. if p = ''v.*'' then Some (\<lambda>s. CHR ''v'' \<in> set s)
              else if p = ''.*'' then Some (\<lambda>s. True)
              else None),
      sort_Slice = insertionSort\<rparr>"

definition ex_config :: "string \<Rightarrow> string list option \<Rightarrow> string \<Rightarrow> Config" where
  "ex_config tagFilter paths ref =
     \<lparr>Input =
        \<lparr>Source = \<lparr>Url = ''git@example.com:org/repo.git'', Branch = '''',
                    TagFilter = tagFilter, PathSearch = paths, PrivateKey = ''KEY''\<rparr>,
         Version = \<lparr>Ref = ref\<rparr>\<rparr>,
      Path = ''/tmp/repo''\<rparr>"

text \<open>A machine on which \<open>ssh-keygen\<close> succeeds whenever the private key file is there.\<close>

definition ex_os :: OS where
  "ex_os =
     \<lparr>ssh_keygen = (\<lambda>key. case key of None \<Rightarrow> None | Some k \<Rightarrow> Some (''ssh-rsa '' @ k)),
      Clone = (\<lambda>url path branch. True),
      Fetch = (\<lambda>path. True)\<rparr>"

definition ex_world :: World where
  "ex_world = \<lparr>files = [], dirs = []\<rparr>"

text \<open>Tag lists for the repository, and the tags that \<open>listTags\<close> makes of them.\<close>

definition ex_tags :: "(string \<times> Oid) list" where
  "ex_tags = [(''refs/tags/v1.0'', oidA), (''refs/tags/v2.0'', oidB)]"

definition ex_tags_tie :: "(string \<times> Oid) list" where
  "ex_tags_tie = [(''refs/tags/v1.0'', oidA), (''refs/tags/v2.0'', oidB), (''refs/tags/v2.1'', oidB)]"

definition ex_tags_release :: "(string \<times> Oid) list" where
  "ex_tags_release = [(''refs/tags/v1.0'', oidA), (''refs/tags/release-2'', oidB), (''refs/tags/v3.0'', oidC)]"

definition ex_T :: "Tag list" where
  "ex_T = [\<lparr>Name = ''refs/tags/v1.0'', Commit = oidA, When = 10\<rparr>,
           \<lparr>Name = ''refs/tags/v2.0'', Commit = oidB, When = 20\<rparr>]"

definition ex_T_tie :: "Tag list" where
  "ex_T_tie = [\<lparr>Name = ''refs/tags/v1.0'', Commit = oidA, When = 10\<rparr>,
           \<lparr>Name = ''refs/tags/v2.0'', Commit = oidB, When = 20\<rparr>,
           \<lparr>Name = ''refs/tags/v2.1'', Commit = oidB, When = 20\<rparr>]"

definition ex_T_release :: "Tag list" where
  "ex_T_release = [\<lparr>Name = ''refs/tags/v1.0'', Commit = oidA, When = 10\<rparr>,
           \<lparr>Name = ''refs/tags/release-2'', Commit = oidB, When = 20\<rparr>,
           \<lparr>Name = ''refs/tags/v3.0'', Commit = oidC, When = 30\<rparr>]"

text \<open>Tag lists with a name that ends in a character of \<open>refs/tags/\<close>, or consists of them.\<close>

definition ex_tags_suffix :: "(string \<times> Oid) list" where
  "ex_tags_suffix =
     [(''refs/tags/v1.0'', oidA), (''refs/tags/v1.0a'', oidC), (''refs/tags/v2.0'', oidB)]"

definition ex_T_suffix :: "Tag list" where
  "ex_T_suffix = [\<lparr>Name = ''refs/tags/v1.0'', Commit = oidA, When = 10\<rparr>,
           \<lparr>Name = ''refs/tags/v1.0a'', Commit = oidC, When = 30\<rparr>,
           \<lparr>Name = ''refs/tags/v2.0'', Commit = oidB, When = 20\<rparr>]"

definition ex_tags_stage :: "(string \<times> Oid) list" where
  "ex_tags_stage = [(''refs/tags/stage'', oidB), (''refs/tags/v1.0'', oidA)]"

definition ex_T_stage :: "Tag list" where
  "ex_T_stage = [\<lparr>Name = ''refs/tags/stage'', Commit = oidB, When = 20\<rparr>,
           \<lparr>Name = ''refs/tags/v1.0'', Commit = oidA, When = 10\<rparr>]"

text \<open>
  The machine after \<open>Init\<close> has run once on \<open>ex_world\<close>, and a machine that holds a
  private key that \<open>Init\<close> has not written.
\<close>

definition ex_world1 :: World where
  "ex_world1 =
     \<lparr>files = [(''/root/.ssh/id_rsa.pub'', ''ssh-rsa KEY''), (''/root/.ssh/id_rsa'', ''KEY'')],
      dirs = [''/tmp/repo/.git'', ''/root/.ssh/'']\<rparr>"

definition ex_world_key :: World where
  "ex_world_key = \<lparr>files = [(''/root/.ssh/id_rsa'', ''OTHER'')], dirs = []\<rparr>"

section \<open>Lemmas on the loops\<close>

lemma refEntry_inj: "refEntry a = refEntry b \<longleftrightarrow> a = b"
  unfolding refEntry_def by (metis map_upd_eqD1)

lemma lastTags_range_eq:
  "lastTags_range ref ts acc =
     rev (map (\<lambda>t. refEntry (tagRef t)) (upto_first (\<lambda>t. tagRef t = ref) ts)) @ acc"
  by (induction ts arbitrary: acc) (auto simp: Let_def refEntry_def tagRef_def)

lemma lastCommits_range_eq:
  "lastCommits_range ref cs acc = rev (map refEntry (upto_first (\<lambda>c. c = ref) cs)) @ acc"
  by (induction cs arbitrary: acc) (auto simp: Let_def refEntry_def)

lemma upto_first_none: "\<forall>x\<in>set xs. \<not> P x \<Longrightarrow> upto_first P xs = xs"
  by (induction xs) auto

lemma upto_first_some:
  "\<exists>x\<in>set xs. P x \<Longrightarrow>
     \<exists>pre x rest. xs = pre @ x # rest \<and> upto_first P xs = pre @ [x] \<and> P x \<and> (\<forall>y\<in>set pre. \<not> P y)"
proof (induction xs)
  case Nil
  then show ?case by simp
next
  case (Cons a xs)
  show ?case
  proof (cases "P a")
    case True
    then have "a # xs = [] @ a # xs \<and> upto_first P (a # xs) = [] @ [a] \<and> P a \<and>
        (\<forall>y\<in>set []. \<not> P y)"
      by simp
    then show ?thesis by blast
  next
    case False
    with Cons.prems have "\<exists>x\<in>set xs. P x" by auto
    from Cons.IH[OF this] obtain pre x rest where
      h: "xs = pre @ x # rest" "upto_first P xs = pre @ [x]" "P x" "\<forall>y\<in>set pre. \<not> P y"
      by blast
    with False have "a # xs = (a # pre) @ x # rest \<and>
        upto_first P (a # xs) = (a # pre) @ [x] \<and> P x \<and> (\<forall>y\<in>set (a # pre). \<not> P y)"
      by simp
    then show ?thesis by blast
  qed
qed

lemma checkPaths_inner_eq: "checkPaths_inner p changed \<longleftrightarrow> p \<in> set changed"
  by (induction changed) auto

section \<open>Lemmas on sorting\<close>

lemma lastTags_less_iff: "lastTags_less a b \<longleftrightarrow> When b < When a"
  by (simp add: lastTags_less_def)

lemma lastTag_less_iff: "lastTag_less a b \<longleftrightarrow> When a < When b"
  by (simp add: lastTag_less_def)

lemma sorts_set: "sorts lessf xs ys \<Longrightarrow> set ys = set xs"
  unfolding sorts_def by (metis set_mset_mset)

lemma sorts_desc: "sorts lastTags_less T S \<Longrightarrow> sorted_wrt (\<lambda>a b. When b \<le> When a) S"
  unfolding sorts_def by (simp add: lastTags_less_iff not_less)

lemma sorts_asc: "sorts lastTag_less T S \<Longrightarrow> sorted_wrt (\<lambda>a b. When a \<le> When b) S"
  unfolding sorts_def by (simp add: lastTag_less_iff not_less)

text \<open>The insertion sort keeps the promise of \<open>sort.Slice\<close> for a comparison by a key.\<close>

lemma insertLess_mset: "mset (insertLess lessf x ys) = add_mset x (mset ys)"
  by (induction ys) auto

lemma insertLess_sorted:
  assumes key: "\<And>a b. lessf a b \<longleftrightarrow> f a < (f b :: 'k::linorder)"
  shows "sorted_wrt (\<lambda>a b. \<not> lessf a b) p \<Longrightarrow> sorted_wrt (\<lambda>a b. \<not> lessf a b) (insertLess lessf x p)"
proof (induction p)
  case Nil
  then show ?case by simp
next
  case (Cons y ys)
  have set_ins: "set (insertLess lessf x ys) = insert x (set ys)"
    by (metis insertLess_mset set_mset_add_mset_insert set_mset_mset)
  have tail: "sorted_wrt (\<lambda>a b. \<not> lessf a b) ys" and hd: "\<forall>z\<in>set ys. \<not> lessf y z"
    using Cons.prems by simp_all
  show ?case
  proof (cases "lessf x y")
    case True
    then have "\<not> lessf y x" using key[of x y] key[of y x] by simp
    with hd have "\<forall>z\<in>set (insertLess lessf x ys). \<not> lessf y z"
      unfolding set_ins by simp
    with True Cons.IH[OF tail] show ?thesis by simp
  next
    case False
    have "\<forall>z\<in>set ys. \<not> lessf x z"
    proof
      fix z assume "z \<in> set ys"
      with hd have "\<not> lessf y z" by simp
      with False show "\<not> lessf x z" using key[of x y] key[of y z] key[of x z] by simp
    qed
    with False Cons.prems show ?thesis by simp
  qed
qed

lemma insertionSort_sorts:
  assumes key: "\<And>a b. lessf a b \<longleftrightarrow> f a < (f b :: 'k::linorder)"
  shows "sorts lessf xs (insertionSort lessf xs)"
proof -
  have "sorted_wrt (\<lambda>a b. \<not> lessf a b) p \<Longrightarrow>
        mset (foldl (\<lambda>p x. insertLess lessf x p) p xs) = mset p + mset xs \<and>
        sorted_wrt (\<lambda>a b. \<not> lessf a b) (foldl (\<lambda>p x. insertLess lessf x p) p xs)" for p
  proof (induction xs arbitrary: p)
    case Nil
    then show ?case by simp
  next
    case (Cons a xs)
    from insertLess_sorted[of lessf f, OF key Cons.prems]
    have "sorted_wrt (\<lambda>a b. \<not> lessf a b) (insertLess lessf a p)" .
    from Cons.IH[OF this] show ?case by (simp add: insertLess_mset)
  qed
  from this[of "[]"] show ?thesis
    by (simp add: sorts_def insertionSort_def sorted_wrt_rev)
qed

section \<open>Lemmas on the tag walk\<close>

lemma lastTags_found:
  assumes S: "sorts lastTags_less T S" and r: "r \<in> tagRef ` set T"
  shows "\<exists>ts. lastTags_range r S [] = map (\<lambda>t. refEntry (tagRef t)) ts \<and> ts \<noteq> [] \<and>
           tagRef (hd ts) = r \<and> (\<forall>u\<in>set (tl ts). tagRef u \<noteq> r) \<and>
           sorted_wrt (\<lambda>a b. When a \<le> When b) ts \<and> mset ts \<subseteq># mset T \<and>
           (\<forall>u\<in>set T. When (hd ts) < When u \<longrightarrow> u \<in> set ts) \<and>
           (\<forall>u\<in>set ts. When (hd ts) \<le> When u)"
proof -
  have setS: "set S = set T" using S by (rule sorts_set)
  have msetS: "mset S = mset T" using S by (simp add: sorts_def)
  have desc: "sorted_wrt (\<lambda>a b. When b \<le> When a) S" using S by (rule sorts_desc)
  from r setS have "\<exists>t\<in>set S. tagRef t = r" by auto
  from upto_first_some[where P = "\<lambda>t. tagRef t = r", OF this]
  obtain pre x rest where
    dec: "S = pre @ x # rest" and up: "upto_first (\<lambda>t. tagRef t = r) S = pre @ [x]"
    and x: "tagRef x = r" and pre: "\<forall>y\<in>set pre. tagRef y \<noteq> r"
    by blast
  let ?ts = "x # rev pre"
  have 1: "lastTags_range r S [] = map (\<lambda>t. refEntry (tagRef t)) ?ts"
    by (simp add: lastTags_range_eq up rev_map)
  have d2: "sorted_wrt (\<lambda>a b. When b \<le> When a) (pre @ [x]) \<and> (\<forall>u\<in>set rest. When u \<le> When x)"
    using desc unfolding dec by (auto simp: sorted_wrt_append)
  have 2: "sorted_wrt (\<lambda>a b. When a \<le> When b) ?ts"
    using d2 by (auto simp: sorted_wrt_append sorted_wrt_rev)
  have 3: "mset ?ts \<subseteq># mset T"
    unfolding msetS[symmetric] dec by simp
  have 4: "\<forall>u\<in>set T. When (hd ?ts) < When u \<longrightarrow> u \<in> set ?ts"
  proof (intro ballI impI)
    fix u assume "u \<in> set T" and lt: "When (hd ?ts) < When u"
    then have "u \<in> set pre \<or> u = x \<or> u \<in> set rest" using setS dec by auto
    moreover have "u \<notin> set rest" using d2 lt by auto
    ultimately show "u \<in> set ?ts" by auto
  qed
  have 5: "\<forall>u\<in>set ?ts. When (hd ?ts) \<le> When u"
    using d2 by (auto simp: sorted_wrt_append)
  from 1 2 3 4 5 x pre show ?thesis
    by (intro exI[of _ ?ts]) simp
qed

lemma lastTags_found_distinct:
  assumes "distinct (map When T)" "set ts \<subseteq> set T" "ts \<noteq> []" "hd ts \<in> set ts"
    "\<forall>u\<in>set T. When (hd ts) < When u \<longrightarrow> u \<in> set ts"
    "\<forall>u\<in>set ts. When (hd ts) \<le> When u"
  shows "set ts = {u \<in> set T. When (hd ts) \<le> When u}"
proof -
  have inj: "inj_on When (set T)" using assms(1) by (simp add: distinct_map)
  show ?thesis
  proof (intro set_eqI iffI)
    fix u assume "u \<in> set ts"
    then show "u \<in> {u \<in> set T. When (hd ts) \<le> When u}" using assms by auto
  next
    fix u assume u: "u \<in> {u \<in> set T. When (hd ts) \<le> When u}"
    show "u \<in> set ts"
    proof (cases "When (hd ts) = When u")
      case True
      moreover have "hd ts \<in> set T" using assms by auto
      ultimately have "hd ts = u" using inj u by (auto dest: inj_onD)
      then show ?thesis using assms by auto
    next
      case False
      then show ?thesis using u assms by auto
    qed
  qed
qed

lemma lastTags_not_found:
  assumes S: "sorts lastTags_less T S" and r: "r \<notin> tagRef ` set T"
  shows "lastTags_range r S [] = map (\<lambda>t. refEntry (tagRef t)) (rev S) \<and> mset (rev S) = mset T \<and>
         sorted_wrt (\<lambda>a b. When a \<le> When b) (rev S)"
proof -
  have setS: "set S = set T" using S by (rule sorts_set)
  have "\<forall>t\<in>set S. \<not> tagRef t = r" using r setS by auto
  then have "upto_first (\<lambda>t. tagRef t = r) S = S" by (rule upto_first_none)
  then have "lastTags_range r S [] = map (\<lambda>t. refEntry (tagRef t)) (rev S)"
    by (simp add: lastTags_range_eq rev_map)
  moreover have "mset (rev S) = mset T" using S by (simp add: sorts_def)
  moreover have "sorted_wrt (\<lambda>a b. When a \<le> When b) (rev S)"
    using sorts_desc[OF S] by (simp add: sorted_wrt_rev)
  ultimately show ?thesis by simp
qed

lemma lastTag_max:
  assumes S: "sorts lastTag_less T S" and ne: "T \<noteq> []"
  shows "S \<noteq> [] \<and> S ! (length S - 1) \<in> set T \<and> (\<forall>u\<in>set T. When u \<le> When (S ! (length S - 1)))"
proof -
  have setS: "set S = set T" using S by (rule sorts_set)
  with ne have Sne: "S \<noteq> []" by auto
  then have l: "S ! (length S - 1) = last S" by (simp add: last_conv_nth)
  obtain ys where ys: "S = ys @ [last S]" using Sne by (metis append_butlast_last_id)
  have asc: "sorted_wrt (\<lambda>a b. When a \<le> When b) (ys @ [last S])" using sorts_asc[OF S] ys by simp
  then have "\<forall>u\<in>set ys. When u \<le> When (last S)" by (auto simp: sorted_wrt_append)
  then have "\<forall>u\<in>set S. When u \<le> When (last S)" using ys
    by (metis Un_iff insert_iff list.set(1) list.simps(15) order_refl set_append empty_iff)
  with setS Sne l show ?thesis by auto
qed

section \<open>Lemmas on the filtered tag set\<close>

text \<open>
  What \<open>listTags\<close> returns: the tags whose reference name the pattern matches, in the
  order of the enumeration, each with the timestamp that \<open>tagWhen\<close> finds.
\<close>

lemma listTags_Foreach_names:
  assumes "MustCompilePOSIX env tagFilter = Some re"
  shows "listTags_Foreach env repo tagFilter tags acc = Inr T \<Longrightarrow>
     map Name T = map Name acc @ filter re (map fst tags) \<and>
     (\<forall>t\<in>set T - set acc. tagWhen repo (Commit t) = Inr (When t) \<and> (Name t, Commit t) \<in> set tags)"
proof (induction tags arbitrary: acc)
  case Nil
  then show ?case by simp
next
  case (Cons a tags)
  obtain name oid where a: "a = (name, oid)" by (cases a)
  from Cons.prems a obtain w where w: "tagWhen repo oid = Inr w"
    by (auto split: sum.splits)
  let ?t = "\<lparr>Name = name, Commit = oid, When = w\<rparr>"
  show ?case
  proof (cases "re name")
    case True
    with Cons.prems a w assms
    have "listTags_Foreach env repo tagFilter tags (acc @ [?t]) = Inr T" by simp
    from Cons.IH[OF this] True a w show ?thesis by auto
  next
    case False
    with Cons.prems a w assms
    have "listTags_Foreach env repo tagFilter tags acc = Inr T" by simp
    from Cons.IH[OF this] False a show ?thesis by auto
  qed
qed

lemma listTags_names:
  assumes "OpenRepository env path = Some repo"
    and "MustCompilePOSIX env tagFilter = Some re"
    and "listTags env path tagFilter = Inr T"
  shows "map Name T = filter re (map fst (Tags_Foreach repo))"
    and "\<forall>t\<in>set T. re (Name t) \<and> tagWhen repo (Commit t) = Inr (When t)"
proof -
  from assms(1,3) have l: "listTags_Foreach env repo tagFilter (Tags_Foreach repo) [] = Inr T"
    by (simp add: listTags_def)
  from listTags_Foreach_names[OF assms(2) l]
  have 1: "map Name T = filter re (map fst (Tags_Foreach repo))"
    and 2: "\<forall>t\<in>set T. tagWhen repo (Commit t) = Inr (When t)" by auto
  show "map Name T = filter re (map fst (Tags_Foreach repo))" by (rule 1)
  have "\<forall>n\<in>set (map Name T). re n" unfolding 1 by simp
  with 2 show "\<forall>t\<in>set T. re (Name t) \<and> tagWhen repo (Commit t) = Inr (When t)" by simp
qed

section \<open>Lemmas on \<open>Check\<close> and on the concrete repository\<close>

lemma defaultBranch_simps:
  "Path (defaultBranch c) = Path c"
  "TagFilter (Source (Input (defaultBranch c))) = TagFilter (Source (Input c))"
  "PathSearch (Source (Input (defaultBranch c))) = PathSearch (Source (Input c))"
  "Version (Input (defaultBranch c)) = Version (Input c)"
  "Url (Source (Input (defaultBranch c))) = Url (Source (Input c))"
  "PrivateKey (Source (Input (defaultBranch c))) = PrivateKey (Source (Input c))"
  by (simp_all add: defaultBranch_def)

lemma Check_tagFilter:
  assumes "TagFilter (Source (Input config)) \<noteq> ''''"
    and "listTags env (Path config) (TagFilter (Source (Input config))) = Inr T"
  shows "Check env config =
    (if Ref (Version (Input config)) \<noteq> ''''
     then Inr (lastTags_range (Ref (Version (Input config))) (sort_Slice env lastTags_less T) [])
     else if T \<noteq> [] then lastTag env T else Inr [])"
  using assms by (simp add: Check_def checkTagFilter_def lastTags_def defaultBranch_simps)

lemmas ex_defs = ex_env_def ex_repo_def ex_config_def ex_commit_def ex_tags_def ex_tags_tie_def
  ex_tags_release_def ex_T_def ex_T_tie_def ex_T_release_def
  oidA_def oidB_def oidC_def treeA_def treeB_def treeC_def

lemma ex_listTags:
  "listTags (ex_env ex_tags) ''/tmp/repo'' ''v.*'' = Inr ex_T"
  by (simp add: listTags_def tagWhen_def ex_defs)

lemma ex_listTags_tie:
  "listTags (ex_env ex_tags_tie) ''/tmp/repo'' ''v.*'' = Inr ex_T_tie"
  by (simp add: listTags_def tagWhen_def ex_defs)

lemma ex_sort_Slice: "sort_Slice (ex_env tags) = insertionSort"
  by (simp add: ex_env_def)

lemma ex_sorts_desc: "sorts lastTags_less T (sort_Slice (ex_env tags) lastTags_less T)"
  unfolding ex_sort_Slice
  by (rule insertionSort_sorts[where f = "\<lambda>t. - When t"]) (simp add: lastTags_less_iff)

lemma ex_sorts_asc: "sorts lastTag_less T (sort_Slice (ex_env tags) lastTag_less T)"
  unfolding ex_sort_Slice
  by (rule insertionSort_sorts[where f = When]) (simp add: lastTag_less_iff)

lemmas ex_slip_defs = ex_tags_suffix_def ex_T_suffix_def ex_tags_stage_def ex_T_stage_def

lemmas eval_defs = Check_def defaultBranch_def checkTagFilter_def listTags_def tagWhen_def
  lastTags_def lastTag_def lastTags_less_def lastTag_less_def insertionSort_def
  Trim_def trimLeft_def trimRight_def refEntry_def Let_def

lemma lastCommits_ForEach_eq:
  "lastCommits_ForEach repo ids acc = Inr cs \<Longrightarrow>
     cs = acc @ map obj_Id (filter (\<lambda>obj. obj_Type obj = ObjectCommit)
                              (map (\<lambda>oid. the (Lookup repo oid)) ids))"
proof (induction ids arbitrary: acc)
  case Nil
  then show ?case by simp
next
  case (Cons a ids)
  from Cons.prems obtain obj where obj: "Lookup repo a = Some obj"
    by (auto split: option.splits)
  show ?case
  proof (cases "obj_Type obj = ObjectCommit")
    case True
    with Cons.prems obj have "lastCommits_ForEach repo ids (acc @ [obj_Id obj]) = Inr cs" by simp
    from Cons.IH[OF this] True obj show ?thesis by simp
  next
    case False
    with Cons.prems obj have "lastCommits_ForEach repo ids acc = Inr cs" by simp
    from Cons.IH[OF this] False obj show ?thesis by simp
  qed
qed

lemma checkCommit_lastSeen:
  assumes "Ref (Version (Input config)) = r" and "r \<noteq> ''''"
    and "OpenRepository env (Path config) = Some repo"
    and "Odb_ForEach repo = Some ids"
    and "lastCommits_ForEach repo ids [] = Inr cs"
  shows "checkCommit env config = Inr (rev (map refEntry (upto_first (\<lambda>c. c = r) cs)))"
  using assms by (simp add: checkCommit_def lastCommits_def lastCommits_range_eq)

lemma Check_plain:
  assumes "TagFilter (Source (Input config)) = ''''" and "PathSearch (Source (Input config)) = None"
  shows "Check env config = checkCommit env (defaultBranch config)"
  using assms by (simp add: Check_def defaultBranch_simps)

lemma Check_paths:
  assumes "TagFilter (Source (Input config)) = ''''" and "PathSearch (Source (Input config)) = Some ps"
  shows "Check env config = checkPaths env (defaultBranch config)"
  using assms by (simp add: Check_def defaultBranch_simps)

lemmas eval_commit_defs = checkCommit_def lastCommits_def checkPaths_def diff_def lookupCommit_def
  LookupCommit_ptr_def

lemma ex_commits:
  "lastCommits_ForEach (ex_repo tags) [treeA, oidC, treeB, oidB, oidA, treeC] [] = Inr [oidC, oidB, oidA]"
  by (simp add: ex_defs)

lemma checkPaths_range_eq:
  assumes "diff env config = Inr changed"
  shows "checkPaths_range env config ps =
           (if set changed \<inter> set ps \<noteq> {} then checkCommit env config else Inr [])"
  using assms by (induction ps) (auto simp: checkPaths_inner_eq)

lemma checkTagFilter_cong:
  assumes "Path c = Path c'"
    and "TagFilter (Source (Input c)) = TagFilter (Source (Input c'))"
    and "Version (Input c) = Version (Input c')"
  shows "checkTagFilter env c = checkTagFilter env c'"
proof -
  have "lastTags env l c = lastTags env l c'" for l
    using assms(3) by (simp add: lastTags_def)
  then show ?thesis
    using assms by (auto simp: checkTagFilter_def split: sum.splits)
qed

lemma metaField_name: "(metaField n v) ''name'' = Some n"
  by (simp add: metaField_def)

lemma metaField_value: "(metaField n v) ''value'' = Some v"
  by (simp add: metaField_def)

lemma metaField_dom: "dom (metaField n v) = {''name'', ''value''}"
  by (auto simp: metaField_def split: if_splits)

lemma GetMetaData_eq:
  assumes "OpenRepository env path = Some repo"
    and "LookupCommit_ptr repo
           (case References_Lookup repo (''refs/tags/'' @ Ref (Version input)) of
              Some r \<Rightarrow> Target r | None \<Rightarrow> NewOid env (Ref (Version input))) = Inr c"
  shows "GetMetaData env path input =
     Inr [metaField ''commit'' (Id c), metaField ''author'' (sig_Name (Committer c)),
          metaField ''date'' (String (sig_When (Committer c))),
          metaField ''branch'' (Branch (Source input)),
          metaField ''tag''
            (if References_Lookup repo (''refs/tags/'' @ Ref (Version input)) \<noteq> None
             then Ref (Version input) else ''''),
          metaField ''message'' (Message c)]"
  using assms by (simp add: GetMetaData_def Let_def metaField_def)

section \<open>Lemmas on \<open>Init\<close>\<close>

lemma exists_iff: "exists w path \<longleftrightarrow> Stat w path"
  by (simp add: exists_def)

lemma key_file_under: "under sshKeyPath (sshKeyPath @ ''id_rsa'')"
  by (simp add: under_def sshKeyPath_def)

lemma key_present_exists:
  assumes "ReadFile w (sshKeyPath @ ''id_rsa'') \<noteq> None"
  shows "exists w sshKeyPath"
proof -
  from assms obtain d where "map_of (files w) (sshKeyPath @ ''id_rsa'') = Some d"
    by (auto simp: ReadFile_def)
  then have "(sshKeyPath @ ''id_rsa'', d) \<in> set (files w)" by (rule map_of_SomeD)
  with key_file_under have "list_ex (\<lambda>(f, data). f = sshKeyPath \<or> under sshKeyPath f) (files w)"
    unfolding list_ex_iff by blast
  then show ?thesis by (simp add: exists_iff Stat_def)
qed

lemma Init_skips:
  assumes "exists w sshKeyPath"
  shows "files (fst (Init os config w)) = files w"
    and "exists (fst (Init os config w)) sshKeyPath"
  using assms by (auto simp: Init_def Let_def MkdirAll_def exists_iff Stat_def)

lemma createSshPubKey_dirs: "dirs (fst (createSshPubKey os w)) = dirs w"
  by (simp add: createSshPubKey_def WriteFile_def split: option.splits)

lemma Init_creates:
  assumes "\<not> exists w sshKeyPath"
  shows "sshKeyPath \<in> set (dirs (fst (Init os config w)))"
    and "ReadFile (fst (Init os config w)) (sshKeyPath @ ''id_rsa'')
           = Some (PrivateKey (Source (Input config)))"
proof -
  let ?w2 = "WriteFile (MkdirAll w sshKeyPath) (sshKeyPath @ ''id_rsa'')
               (PrivateKey (Source (Input config)))"
  have d: "sshKeyPath \<in> set (dirs (fst (createSshPubKey os ?w2)))"
    by (simp add: createSshPubKey_dirs) (simp add: WriteFile_def MkdirAll_def)
  have f: "ReadFile (fst (createSshPubKey os ?w2)) (sshKeyPath @ ''id_rsa'')
             = Some (PrivateKey (Source (Input config)))"
    by (simp add: createSshPubKey_def WriteFile_def MkdirAll_def sshKeyPath_def ReadFile_def
        split: option.splits)
  obtain w' died where c: "createSshPubKey os ?w2 = (w', died)" by (cases "createSshPubKey os ?w2")
  from d f c have d': "sshKeyPath \<in> set (dirs w')"
    and f': "ReadFile w' (sshKeyPath @ ''id_rsa'') = Some (PrivateKey (Source (Input config)))"
    by simp_all
  from assms c d' show "sshKeyPath \<in> set (dirs (fst (Init os config w)))"
    by (auto simp: Init_def Let_def MkdirAll_def split: option.splits)
  from assms c f' show "ReadFile (fst (Init os config w)) (sshKeyPath @ ''id_rsa'')
           = Some (PrivateKey (Source (Input config)))"
    by (auto simp: Init_def Let_def MkdirAll_def ReadFile_def split: option.splits)
qed

lemma Init_exists: "exists (fst (Init os config w)) sshKeyPath"
proof (cases "exists w sshKeyPath")
  case True
  then show ?thesis by (rule Init_skips(2))
next
  case False
  from Init_creates(1)[OF this] show ?thesis by (simp add: exists_iff Stat_def)
qed

lemmas init_defs = Init_def exists_def Stat_def under_def ReadFile_def MkdirAll_def WriteFile_def
  createSshPubKey_def sshKeyPath_def keyFiles_def defaultBranch_def Let_def ex_os_def
  ex_world_def ex_world1_def ex_world_key_def ex_config_def

section \<open>Lemmas on \<open>strings.Trim\<close>\<close>

lemma cutset_chars:
  "set ''refs/tags/'' = {CHR ''r'', CHR ''e'', CHR ''f'', CHR ''s'', CHR ''/'', CHR ''t'', CHR ''a'', CHR ''g''}"
  by auto

lemma trimRight_decomp:
  "\<exists>suf. s = trimRight s cs @ suf \<and> set suf \<subseteq> set cs"
proof -
  let ?P = "\<lambda>c. c \<in> set cs"
  have "rev s = takeWhile ?P (rev s) @ dropWhile ?P (rev s)" by simp
  then have "s = rev (dropWhile ?P (rev s)) @ rev (takeWhile ?P (rev s))"
    by (metis rev_append rev_rev_ident)
  moreover have "set (rev (takeWhile ?P (rev s))) \<subseteq> set cs"
    by (auto dest: set_takeWhileD)
  ultimately show ?thesis unfolding trimRight_def by blast
qed

lemma trimLeft_decomp:
  "\<exists>pre. s = pre @ trimLeft s cs \<and> set pre \<subseteq> set cs"
proof -
  let ?P = "\<lambda>c. c \<in> set cs"
  have "s = takeWhile ?P s @ dropWhile ?P s" by simp
  moreover have "set (takeWhile ?P s) \<subseteq> set cs" by (auto dest: set_takeWhileD)
  ultimately show ?thesis unfolding trimLeft_def by blast
qed

lemma trimRight_last: "trimRight s cs \<noteq> [] \<Longrightarrow> last (trimRight s cs) \<notin> set cs"
  unfolding trimRight_def
  by (metis (mono_tags, lifting) hd_dropWhile last_rev rev_is_Nil_conv)

lemma trimLeft_hd: "trimLeft s cs \<noteq> [] \<Longrightarrow> hd (trimLeft s cs) \<notin> set cs"
  unfolding trimLeft_def by (metis (mono_tags, lifting) hd_dropWhile)

lemma trimLeft_last: "trimLeft s cs \<noteq> [] \<Longrightarrow> last (trimLeft s cs) = last s"
proof -
  assume ne: "trimLeft s cs \<noteq> []"
  obtain pre where "s = pre @ trimLeft s cs" using trimLeft_decomp by blast
  then have "last s = last (pre @ trimLeft s cs)" by simp
  with ne show ?thesis by simp
qed

lemma Trim_decomp:
  "\<exists>pre suf. s = pre @ Trim s cs @ suf \<and> set pre \<subseteq> set cs \<and> set suf \<subseteq> set cs"
proof (cases "s = [] \<or> cs = []")
  case True
  then have "s = [] @ Trim s cs @ [] \<and> set [] \<subseteq> set cs \<and> set [] \<subseteq> set cs"
    by (simp add: Trim_def)
  then show ?thesis by blast
next
  case False
  obtain suf where suf: "s = trimRight s cs @ suf" "set suf \<subseteq> set cs"
    using trimRight_decomp by blast
  obtain pre where pre: "trimRight s cs = pre @ trimLeft (trimRight s cs) cs" "set pre \<subseteq> set cs"
    using trimLeft_decomp by blast
  have T: "Trim s cs = trimLeft (trimRight s cs) cs" using False by (simp add: Trim_def)
  have "s = pre @ Trim s cs @ suf"
    unfolding T using suf(1) pre(1) by (metis append.assoc)
  with suf(2) pre(2) show ?thesis by blast
qed

lemma Trim_ends:
  assumes "cs \<noteq> []" and "Trim s cs \<noteq> []"
  shows "hd (Trim s cs) \<notin> set cs" and "last (Trim s cs) \<notin> set cs"
proof -
  from assms have s: "s \<noteq> []" by (auto simp: Trim_def)
  with assms have T: "Trim s cs = trimLeft (trimRight s cs) cs" by (simp add: Trim_def)
  with assms(2) have ne: "trimLeft (trimRight s cs) cs \<noteq> []" by simp
  then have r: "trimRight s cs \<noteq> []" by (auto simp: trimLeft_def)
  show "hd (Trim s cs) \<notin> set cs" unfolding T using ne by (rule trimLeft_hd)
  have "last (Trim s cs) = last (trimRight s cs)" unfolding T using ne by (rule trimLeft_last)
  with trimRight_last[OF r] show "last (Trim s cs) \<notin> set cs" by simp
qed

lemma Trim_prefix:
  assumes "set p \<subseteq> set cs"
  shows "Trim (p @ s) cs = Trim s cs"
proof (cases "cs = []")
  case True
  with assms show ?thesis by (simp add: Trim_def)
next
  case cs: False
  let ?P = "\<lambda>c. c \<in> set cs"
  have allp: "\<forall>x\<in>set p. ?P x" using assms by auto
  show ?thesis
  proof (cases "\<forall>x\<in>set s. ?P x")
    case True
    then have "\<forall>x\<in>set (rev (p @ s)). ?P x" using allp by auto
    then have "dropWhile ?P (rev (p @ s)) = []" by (simp only: dropWhile_eq_Nil_conv)
    then have "trimRight (p @ s) cs = []" unfolding trimRight_def by simp
    then have e1: "trimLeft (trimRight (p @ s) cs) cs = []" by (simp add: trimLeft_def)
    have "trimRight s cs = []" unfolding trimRight_def using True by simp
    then have e2: "trimLeft (trimRight s cs) cs = []" by (simp add: trimLeft_def)
    have "Trim (p @ s) cs = []" using cs e1 by (metis Trim_def)
    moreover have "Trim s cs = []" using cs e2 by (metis Trim_def)
    ultimately show ?thesis by simp
  next
    case False
    then obtain x where x: "x \<in> set (rev s)" "\<not> ?P x" by auto
    have "dropWhile ?P (rev s @ rev p) = dropWhile ?P (rev s) @ rev p"
      using x by (rule dropWhile_append1)
    then have tr: "trimRight (p @ s) cs = p @ trimRight s cs"
      unfolding trimRight_def by simp
    have "trimLeft (p @ trimRight s cs) cs = trimLeft (trimRight s cs) cs"
      unfolding trimLeft_def using allp by simp
    moreover have "s \<noteq> []" using False by auto
    ultimately show ?thesis using cs tr by (simp add: Trim_def)
  qed
qed

lemma upto_first_subset: "set (upto_first P xs) \<subseteq> set xs"
  by (induction xs) auto

lemma lastTags_range_refs:
  "set (lastTags_range ref ts acc) \<subseteq> (\<lambda>t. refEntry (tagRef t)) ` set ts \<union> set acc"
  unfolding lastTags_range_eq using upto_first_subset[of "\<lambda>t. tagRef t = ref" ts] by auto

lemma checkTagFilter_refs:
  assumes "TagFilter (Source (Input config)) \<noteq> ''''"
    and "listTags env (Path config) (TagFilter (Source (Input config))) = Inr T"
    and "sorts lastTags_less T (sort_Slice env lastTags_less T)"
    and "sorts lastTag_less T (sort_Slice env lastTag_less T)"
    and "Check env config = Inr res"
  shows "\<forall>m\<in>set res. \<exists>t\<in>set T. m = refEntry (Trim (Name t) ''refs/tags/'')"
proof (cases "Ref (Version (Input config)) \<noteq> ''''")
  case True
  let ?S = "sort_Slice env lastTags_less T"
  have "res = lastTags_range (Ref (Version (Input config))) ?S []"
    using Check_tagFilter[OF assms(1,2)] True assms(5) by simp
  then have "set res \<subseteq> (\<lambda>t. refEntry (tagRef t)) ` set ?S"
    using lastTags_range_refs[of "Ref (Version (Input config))" ?S "[]"] by simp
  also have "set ?S = set T" using assms(3) by (rule sorts_set)
  finally show ?thesis by (auto simp: tagRef_def)
next
  case False
  show ?thesis
  proof (cases "T = []")
    case True
    then have "res = []" using Check_tagFilter[OF assms(1,2)] False assms(5) by simp
    then show ?thesis by simp
  next
    case ne: False
    let ?S = "sort_Slice env lastTag_less T"
    from lastTag_max[OF assms(4) ne] have m: "?S \<noteq> []" "?S ! (length ?S - 1) \<in> set T"
      by simp_all
    have "Check env config = lastTag env T"
      using Check_tagFilter[OF assms(1,2)] False ne by simp
    then have "res = [refEntry (Trim (Name (?S ! (length ?S - 1))) ''refs/tags/'')]"
      using assms(5) m(1) by (simp add: lastTag_def Let_def refEntry_def)
    with m(2) show ?thesis by auto
  qed
qed

text \<open>A tag with a plain name is presented under its short name.\<close>

lemma cutChars_eq: "set ''refs/tags/'' = cutChars"
  unfolding cutChars_def by auto

lemma Trim_stable:
  assumes "s \<noteq> []" and "hd s \<notin> set cs" and "last s \<notin> set cs"
  shows "Trim s cs = s"
proof (cases "cs = []")
  case True
  then show ?thesis by (simp add: Trim_def)
next
  case False
  have "rev s \<noteq> []" using assms(1) by simp
  moreover have "hd (rev s) \<notin> set cs" using assms(1,3) by (simp add: hd_rev)
  ultimately have "dropWhile (\<lambda>c. c \<in> set cs) (rev s) = rev s"
    by (cases "rev s") auto
  then have r: "trimRight s cs = s" by (simp add: trimRight_def)
  have l: "trimLeft s cs = s" using assms(1,2) by (cases s) (auto simp: trimLeft_def)
  from False assms(1) r l show ?thesis by (simp add: Trim_def)
qed

lemma plainName_Name: "plainName t \<Longrightarrow> Name t = ''refs/tags/'' @ shortName t"
  unfolding plainName_def shortName_def by (metis append_take_drop_id)

lemma plainName_tagRef:
  assumes "plainName t"
  shows "tagRef t = shortName t"
proof -
  have n: "Name t = ''refs/tags/'' @ shortName t" using assms by (rule plainName_Name)
  have "tagRef t = Trim (''refs/tags/'' @ shortName t) ''refs/tags/''"
    using n by (simp add: tagRef_def)
  also have "\<dots> = Trim (shortName t) ''refs/tags/''" by (rule Trim_prefix) simp
  also have "\<dots> = shortName t"
    using assms unfolding plainName_def cutChars_eq[symmetric] by (intro Trim_stable) simp_all
  finally show ?thesis .
qed

lemma plainName_inj:
  assumes "plainName t" and "plainName u" and "shortName t = shortName u"
  shows "Name t = Name u"
  using assms plainName_Name by metis

lemma Tag_eq_by_Name:
  assumes "distinct (map Name T)" and "t \<in> set T" and "u \<in> set T" and "Name t = Name u"
  shows "t = u"
  using assms by (meson distinct_map inj_onD)

section \<open>The tag-filter policy on plain names\<close>

text \<open>
  When every tag of the filtered set has a plain name, the policy without a
  remembered version returns the short name of a newest tag, and the policy with a
  remembered version that is the short name of no tag returns the short names of all
  tags, oldest first.
\<close>

lemma tag_filter_without_lastSeen_plain:
  assumes "TagFilter (Source (Input config)) \<noteq> ''''"
    and "Ref (Version (Input config)) = ''''"
    and "listTags env (Path config) (TagFilter (Source (Input config))) = Inr T"
    and "sorts lastTag_less T (sort_Slice env lastTag_less T)"
    and "\<forall>t\<in>set T. plainName t"
  shows "(T = [] \<longrightarrow> Check env config = Inr []) \<and>
         (T \<noteq> [] \<longrightarrow> (\<exists>t\<in>set T. (\<forall>u\<in>set T. When u \<le> When t) \<and>
              Check env config = Inr [refEntry (shortName t)]))"
proof (intro conjI impI)
  assume "T = []"
  then show "Check env config = Inr []"
    using Check_tagFilter[OF assms(1) assms(3)] assms(2) by simp
next
  assume ne: "T \<noteq> []"
  let ?S = "sort_Slice env lastTag_less T"
  let ?t = "?S ! (length ?S - 1)"
  from lastTag_max[OF assms(4) ne] have
    m: "?S \<noteq> []" "?t \<in> set T" "\<forall>u\<in>set T. When u \<le> When ?t" by simp_all
  have "Check env config = lastTag env T"
    using Check_tagFilter[OF assms(1) assms(3)] assms(2) ne by simp
  also have "\<dots> = Inr [refEntry (tagRef ?t)]"
    using m(1) by (simp add: lastTag_def Let_def refEntry_def tagRef_def)
  also have "tagRef ?t = shortName ?t" using assms(5) m(2) plainName_tagRef by blast
  finally show "\<exists>t\<in>set T. (\<forall>u\<in>set T. When u \<le> When t) \<and>
      Check env config = Inr [refEntry (shortName t)]"
    using m(2,3) by blast
qed

lemma dropped_version_returns_all_plain:
  assumes "TagFilter (Source (Input config)) \<noteq> ''''"
    and "Ref (Version (Input config)) = lastSeen" and "lastSeen \<noteq> ''''"
    and "listTags env (Path config) (TagFilter (Source (Input config))) = Inr T"
    and "sorts lastTags_less T (sort_Slice env lastTags_less T)"
    and "\<forall>t\<in>set T. plainName t"
    and "lastSeen \<notin> shortName ` set T"
  shows "\<exists>ts. mset ts = mset T \<and> sorted_wrt (\<lambda>a b. When a \<le> When b) ts \<and>
           Check env config = Inr (map (\<lambda>t. refEntry (shortName t)) ts)"
proof -
  let ?S = "sort_Slice env lastTags_less T"
  have ref: "tagRef t = shortName t" if "t \<in> set T" for t
    using that assms(6) plainName_tagRef by blast
  have "lastSeen \<notin> tagRef ` set T" using assms(7) ref by force
  from lastTags_not_found[OF assms(5) this] have
    l: "lastTags_range lastSeen ?S [] = map (\<lambda>t. refEntry (tagRef t)) (rev ?S)"
      "mset (rev ?S) = mset T" "sorted_wrt (\<lambda>a b. When a \<le> When b) (rev ?S)"
    by simp_all
  have "set (rev ?S) = set T" using l(2) by (metis set_mset_mset)
  then have "map (\<lambda>t. refEntry (tagRef t)) (rev ?S) = map (\<lambda>t. refEntry (shortName t)) (rev ?S)"
    using ref by (intro map_cong) auto
  then have "Check env config = Inr (map (\<lambda>t. refEntry (shortName t)) (rev ?S))"
    using Check_tagFilter[OF assms(1) assms(4)] assms(2,3) l(1) by simp
  with l(2,3) show ?thesis by blast
qed

section \<open>The tag-filter policy with a remembered version\<close>

text \<open>
  C1, as the code has it by design.  Let the tag filter be set, let the filtered set
  \<open>T\<close> have distinct plain names, let \<open>lastSeen\<close> be the short name of a member \<open>t0\<close> of
  \<open>T\<close>, and let \<open>sort.Slice\<close> sort.  Then \<open>Check\<close> returns the short names of a list
  \<open>ts\<close> of tags of \<open>T\<close> whose \<^emph>\<open>first\<close> element is \<open>t0\<close>, which does not occur again,
  ordered oldest first.  The list holds every tag of \<open>T\<close> that is strictly newer than
  \<open>t0\<close> and only tags that are at least as new; when the timestamps of \<open>T\<close> are
  pairwise distinct these are exactly the tags of \<open>T\<close> with a timestamp greater than
  or equal to that of \<open>t0\<close>.
\<close>

theorem tag_filter_with_lastSeen:
  assumes "TagFilter (Source (Input config)) \<noteq> ''''"
    and "Ref (Version (Input config)) = lastSeen"
    and "listTags env (Path config) (TagFilter (Source (Input config))) = Inr T"
    and "sorts lastTags_less T (sort_Slice env lastTags_less T)"
    and "\<forall>t\<in>set T. plainName t" and "distinct (map Name T)"
    and "t0 \<in> set T" and "shortName t0 = lastSeen"
  shows "\<exists>ts. Check env config = Inr (map (\<lambda>t. refEntry (shortName t)) ts) \<and>
           ts \<noteq> [] \<and> hd ts = t0 \<and> t0 \<notin> set (tl ts) \<and>
           sorted_wrt (\<lambda>a b. When a \<le> When b) ts \<and> mset ts \<subseteq># mset T \<and>
           (\<forall>u\<in>set T. When t0 < When u \<longrightarrow> u \<in> set ts) \<and>
           (\<forall>u\<in>set ts. When t0 \<le> When u) \<and>
           (distinct (map When T) \<longrightarrow> set ts = {u \<in> set T. When t0 \<le> When u})"
proof -
  have ref: "tagRef t = shortName t" if "t \<in> set T" for t
    using that assms(5) plainName_tagRef by blast
  have ne: "lastSeen \<noteq> ''''"
    using assms(5,7,8) by (auto simp: plainName_def)
  have mem: "lastSeen \<in> tagRef ` set T"
    using assms(7,8) ref by force
  from lastTags_found[OF assms(4) mem] obtain ts where
    ts: "lastTags_range lastSeen (sort_Slice env lastTags_less T) []
           = map (\<lambda>t. refEntry (tagRef t)) ts"
      "ts \<noteq> []" "tagRef (hd ts) = lastSeen" "\<forall>u\<in>set (tl ts). tagRef u \<noteq> lastSeen"
      "sorted_wrt (\<lambda>a b. When a \<le> When b) ts" "mset ts \<subseteq># mset T"
      "\<forall>u\<in>set T. When (hd ts) < When u \<longrightarrow> u \<in> set ts"
      "\<forall>u\<in>set ts. When (hd ts) \<le> When u"
    by blast
  have sub: "set ts \<subseteq> set T" using ts(6) by (metis set_mset_mono set_mset_mset)
  have hdin: "hd ts \<in> set ts" using ts(2) by simp
  then have hdT: "hd ts \<in> set T" using sub by blast
  have "shortName (hd ts) = shortName t0" using ts(3) ref[OF hdT] assms(8) by simp
  then have "Name (hd ts) = Name t0"
    using assms(5,7) hdT plainName_inj by blast
  then have hd0: "hd ts = t0"
    using Tag_eq_by_Name[OF assms(6) hdT assms(7)] by simp
  have tl: "t0 \<notin> set (tl ts)"
  proof
    assume "t0 \<in> set (tl ts)"
    with ts(4) have "tagRef t0 \<noteq> lastSeen" by blast
    with ref[OF assms(7)] assms(8) show False by simp
  qed
  have maps: "map (\<lambda>t. refEntry (tagRef t)) ts = map (\<lambda>t. refEntry (shortName t)) ts"
    using sub ref by (intro map_cong) auto
  have chk: "Check env config = Inr (map (\<lambda>t. refEntry (shortName t)) ts)"
    using Check_tagFilter[OF assms(1) assms(3)] assms(2) ne ts(1) maps by simp
  have "distinct (map When T) \<longrightarrow> set ts = {u \<in> set T. When (hd ts) \<le> When u}"
    using lastTags_found_distinct[OF _ sub ts(2) hdin ts(7) ts(8)] by blast
  with chk ts(2,5,6,7,8) hd0 tl show ?thesis by blast
qed

text \<open>
  The specification puts \<open>lastSeen\<close> last.  With the tags \<open>v1.0\<close> (time 10) and
  \<open>v2.0\<close> (time 20), the filter \<open>v.*\<close> and \<open>lastSeen = v1.0\<close> the result is
  \<open>v1.0, v2.0\<close>: \<open>lastSeen\<close> is first and the last element is \<open>v2.0\<close>.  With a third
  tag \<open>v2.1\<close> on the commit of \<open>v2.0\<close>, so with the same time 20, \<open>lastSeen = v2.0\<close> gives
  \<open>v2.0\<close> alone, although \<open>v2.1\<close> is as new as \<open>lastSeen\<close>.  And with the tags \<open>v1.0\<close>
  (time 10), \<open>v2.0\<close> (time 20) and \<open>v1.0a\<close> (time 30), whose last name is not plain,
  \<open>lastSeen = v1.0\<close> gives \<open>v1.0\<close> alone: the walk stops at \<open>v1.0a\<close>, which it presents
  as \<open>v1.0\<close>, and \<open>v2.0\<close> is left out.
\<close>

theorem tag_filter_with_lastSeen_counterexample:
  "Check (ex_env ex_tags) (ex_config ''v.*'' None ''v1.0'') = Inr [refEntry ''v1.0'', refEntry ''v2.0'']
   \<and> last [refEntry ''v1.0'', refEntry ''v2.0''] \<noteq> refEntry ''v1.0''
   \<and> listTags (ex_env ex_tags_tie) ''/tmp/repo'' ''v.*'' = Inr ex_T_tie
   \<and> Check (ex_env ex_tags_tie) (ex_config ''v.*'' None ''v2.0'') = Inr [refEntry ''v2.0'']
   \<and> listTags (ex_env ex_tags_suffix) ''/tmp/repo'' ''v.*'' = Inr ex_T_suffix
   \<and> Check (ex_env ex_tags_suffix) (ex_config ''v.*'' None ''v1.0'') = Inr [refEntry ''v1.0'']"
proof -
  have 1: "Check (ex_env ex_tags) (ex_config ''v.*'' None ''v1.0'') = Inr [refEntry ''v1.0'', refEntry ''v2.0'']"
    by (simp add: eval_defs ex_defs)
  have 2: "last [refEntry ''v1.0'', refEntry ''v2.0''] \<noteq> refEntry ''v1.0''"
    by (simp add: refEntry_inj)
  have 3: "Check (ex_env ex_tags_tie) (ex_config ''v.*'' None ''v2.0'') = Inr [refEntry ''v2.0'']"
    by (simp add: eval_defs ex_defs)
  have 4: "listTags (ex_env ex_tags_suffix) ''/tmp/repo'' ''v.*'' = Inr ex_T_suffix"
    by (simp add: listTags_def tagWhen_def ex_defs ex_slip_defs)
  have 5: "Check (ex_env ex_tags_suffix) (ex_config ''v.*'' None ''v1.0'') = Inr [refEntry ''v1.0'']"
    by (simp add: eval_defs ex_defs ex_slip_defs)
  from 1 2 3 4 5 ex_listTags_tie show ?thesis by blast
qed

theorem tag_filter_with_lastSeen_witness:
  "listTags (ex_env ex_tags) (Path (ex_config ''v.*'' None ''v1.0'')) ''v.*'' = Inr ex_T
   \<and> sorts lastTags_less ex_T (sort_Slice (ex_env ex_tags) lastTags_less ex_T)
   \<and> list_all plainName ex_T
   \<and> distinct (map Name ex_T)
   \<and> hd ex_T \<in> set ex_T
   \<and> shortName (hd ex_T) = ''v1.0''
   \<and> (\<exists>ts. Check (ex_env ex_tags) (ex_config ''v.*'' None ''v1.0'')
              = Inr (map (\<lambda>t. refEntry (shortName t)) ts) \<and> ts \<noteq> [] \<and>
           hd ts = hd ex_T \<and> set ts = {u \<in> set ex_T. When (hd ex_T) \<le> When u})"
proof -
  let ?c = "ex_config ''v.*'' None ''v1.0''"
  have h1: "TagFilter (Source (Input ?c)) \<noteq> ''''" by (simp add: ex_config_def)
  have h2: "Ref (Version (Input ?c)) = ''v1.0''" by (simp add: ex_config_def)
  have h3: "listTags (ex_env ex_tags) (Path ?c) (TagFilter (Source (Input ?c))) = Inr ex_T"
    using ex_listTags by (simp add: ex_config_def)
  have h4: "sorts lastTags_less ex_T (sort_Slice (ex_env ex_tags) lastTags_less ex_T)"
    by (rule ex_sorts_desc)
  have p: "list_all plainName ex_T"
    by (simp add: ex_T_def plainName_def shortName_def cutChars_def)
  then have h5: "\<forall>t\<in>set ex_T. plainName t" by (simp add: list_all_iff)
  have h6: "distinct (map Name ex_T)" by (simp add: ex_T_def)
  have h7: "hd ex_T \<in> set ex_T" by (simp add: ex_T_def)
  have h8: "shortName (hd ex_T) = ''v1.0''" by (simp add: ex_T_def shortName_def)
  have d: "distinct (map When ex_T)" by (simp add: ex_T_def)
  from tag_filter_with_lastSeen[OF h1 h2 h3 h4 h5 h6 h7 h8] d
  have "\<exists>ts. Check (ex_env ex_tags) ?c = Inr (map (\<lambda>t. refEntry (shortName t)) ts) \<and> ts \<noteq> [] \<and>
           hd ts = hd ex_T \<and> set ts = {u \<in> set ex_T. When (hd ex_T) \<le> When u}"
    by blast
  with h3 h4 p h6 h7 h8 show ?thesis by (simp add: ex_config_def)
qed

section \<open>The tag-filter policy without a remembered version\<close>

text \<open>
  C2 says that without a remembered version the result is the one tag of the filtered
  set with the maximum timestamp.  The code trims the reference name with the cutset
  \<open>refs/tags/\<close> where the prefix \<open>refs/tags/\<close> was to be removed.  With the tags
  \<open>stage\<close> (time 20) and \<open>v1.0\<close> (time 10) and the filter \<open>.*\<close>, the newest tag is
  \<open>stage\<close>, and \<open>Check\<close> returns one entry whose ref is the empty string.
\<close>

theorem tag_filter_without_lastSeen_trims:
  "listTags (ex_env ex_tags_stage) ''/tmp/repo'' ''.*'' = Inr ex_T_stage
   \<and> Check (ex_env ex_tags_stage) (ex_config ''.*'' None '''') = Inr [refEntry '''']
   \<and> refEntry '''' \<noteq> refEntry ''stage''"
proof -
  have "listTags (ex_env ex_tags_stage) ''/tmp/repo'' ''.*'' = Inr ex_T_stage"
    by (simp add: listTags_def tagWhen_def ex_defs ex_slip_defs)
  moreover have "Check (ex_env ex_tags_stage) (ex_config ''.*'' None '''') = Inr [refEntry '''']"
    by (simp add: eval_defs ex_defs ex_slip_defs)
  moreover have "refEntry '''' \<noteq> refEntry ''stage''" by (simp add: refEntry_inj)
  ultimately show ?thesis by blast
qed

section \<open>The plain-commit policy with a remembered version\<close>

text \<open>
  C3, as the code has it.  Let no filter be set and \<open>lastSeen\<close> be present, and let
  \<open>cs\<close> be the commit identifiers in the order the object database yields them.
  \<open>Check\<close> prepends each of them and stops at the first that equals \<open>lastSeen\<close>, so
  when \<open>lastSeen\<close> is among them the result \<^emph>\<open>begins\<close> with \<open>lastSeen\<close>, followed by the
  commits enumerated before it, the latest enumerated first; when \<open>lastSeen\<close> is never
  met the result is all of \<open>cs\<close> in the reverse of the enumeration order.
\<close>

theorem plain_commit_walk:
  assumes "TagFilter (Source (Input config)) = ''''"
    and "PathSearch (Source (Input config)) = None"
    and "Ref (Version (Input config)) = r" and "r \<noteq> ''''"
    and "OpenRepository env (Path config) = Some repo"
    and "Odb_ForEach repo = Some ids"
    and "lastCommits_ForEach repo ids [] = Inr cs"
  shows "cs = map obj_Id (filter (\<lambda>obj. obj_Type obj = ObjectCommit)
                            (map (\<lambda>oid. the (Lookup repo oid)) ids)) \<and>
         (r \<in> set cs \<longrightarrow>
            (\<exists>pre rest. cs = pre @ r # rest \<and> r \<notin> set pre \<and>
               Check env config = Inr (map refEntry (r # rev pre)))) \<and>
         (r \<notin> set cs \<longrightarrow> Check env config = Inr (map refEntry (rev cs)))"
proof (intro conjI impI)
  show "cs = map obj_Id (filter (\<lambda>obj. obj_Type obj = ObjectCommit)
                            (map (\<lambda>oid. the (Lookup repo oid)) ids))"
    using lastCommits_ForEach_eq[OF assms(7)] by simp
next
  have c: "Check env config = Inr (rev (map refEntry (upto_first (\<lambda>c. c = r) cs)))"
    unfolding Check_plain[OF assms(1,2)]
    by (rule checkCommit_lastSeen[where repo = repo and ids = ids])
       (simp_all add: defaultBranch_simps assms)
  {
    assume "r \<in> set cs"
    then have "\<exists>x\<in>set cs. x = r" by simp
    from upto_first_some[where P = "\<lambda>c. c = r", OF this] obtain pre x rest where
      "cs = pre @ x # rest" "upto_first (\<lambda>c. c = r) cs = pre @ [x]" "x = r" "\<forall>y\<in>set pre. y \<noteq> r"
      by blast
    then have "cs = pre @ r # rest \<and> r \<notin> set pre \<and>
               Check env config = Inr (map refEntry (r # rev pre))"
      using c by (auto simp: rev_map)
    then show "\<exists>pre rest. cs = pre @ r # rest \<and> r \<notin> set pre \<and>
               Check env config = Inr (map refEntry (r # rev pre))"
      by blast
  }
  {
    assume "r \<notin> set cs"
    then have "\<forall>x\<in>set cs. \<not> x = r" by auto
    then have "upto_first (\<lambda>c. c = r) cs = cs" by (rule upto_first_none)
    with c show "Check env config = Inr (map refEntry (rev cs))" by (simp add: rev_map)
  }
qed

text \<open>
  The specification has the list end with \<open>lastSeen\<close>.  The database yields the
  commits \<open>oidC\<close>, \<open>oidB\<close>, \<open>oidA\<close>; with \<open>lastSeen = oidB\<close> the result is
  \<open>oidB, oidC\<close>, whose last element is \<open>oidC\<close>.
\<close>

theorem plain_commit_walk_counterexample:
  "Check (ex_env []) (ex_config '''' None oidB) = Inr [refEntry oidB, refEntry oidC]
   \<and> last [refEntry oidB, refEntry oidC] \<noteq> refEntry oidB"
proof -
  have "Check (ex_env []) (ex_config '''' None oidB) = Inr [refEntry oidB, refEntry oidC]"
    by (simp add: eval_defs eval_commit_defs ex_defs)
  moreover have "last [refEntry oidB, refEntry oidC] \<noteq> refEntry oidB"
    by (simp add: refEntry_inj oidB_def oidC_def)
  ultimately show ?thesis by blast
qed

theorem plain_commit_walk_witness:
  "lastCommits_ForEach (ex_repo []) [treeA, oidC, treeB, oidB, oidA, treeC] [] = Inr [oidC, oidB, oidA]
   \<and> Check (ex_env []) (ex_config '''' None oidB) = Inr (map refEntry [oidB, oidC])
   \<and> treeA \<notin> set [oidC, oidB, oidA]
   \<and> Check (ex_env []) (ex_config '''' None treeA) = Inr (map refEntry [oidA, oidB, oidC])"
proof -
  let ?ids = "[treeA, oidC, treeB, oidB, oidA, treeC]"
  have h1: "TagFilter (Source (Input (ex_config '''' None r))) = ''''" for r
    by (simp add: ex_config_def)
  have h2: "PathSearch (Source (Input (ex_config '''' None r))) = None" for r
    by (simp add: ex_config_def)
  have h3: "Ref (Version (Input (ex_config '''' None r))) = r" for r
    by (simp add: ex_config_def)
  have h5: "OpenRepository (ex_env []) (Path (ex_config '''' None r)) = Some (ex_repo [])" for r
    by (simp add: ex_config_def ex_env_def)
  have h6: "Odb_ForEach (ex_repo []) = Some ?ids" by (simp add: ex_repo_def)
  have neB: "oidB \<noteq> ''''" and neT: "treeA \<noteq> ''''" by (simp_all add: oidB_def treeA_def)
  have notin: "treeA \<notin> set [oidC, oidB, oidA]" by (simp add: ex_defs)
  have isin: "oidB \<in> set [oidC, oidB, oidA]" by simp
  note found = plain_commit_walk[OF h1 h2 h3 neB h5 h6 ex_commits, THEN conjunct2, THEN conjunct1]
  from mp[OF found isin]
  obtain pre rest where p: "[oidC, oidB, oidA] = pre @ oidB # rest" "oidB \<notin> set pre"
      "Check (ex_env []) (ex_config [] None oidB) = Inr (map refEntry (oidB # rev pre))"
    by blast
  have "pre = [oidC]"
    using p(1,2) by (cases pre; cases "tl pre") (auto simp: oidB_def oidC_def oidA_def)
  with p(3) have 1: "Check (ex_env []) (ex_config [] None oidB) = Inr (map refEntry [oidB, oidC])"
    by simp
  note absent = plain_commit_walk[OF h1 h2 h3 neT h5 h6 ex_commits, THEN conjunct2, THEN conjunct2]
  from mp[OF absent notin]
  have 2: "Check (ex_env []) (ex_config [] None treeA) = Inr (map refEntry [oidA, oidB, oidC])"
    by simp
  from 1 2 notin ex_commits show ?thesis by blast
qed

section \<open>The path-filter policy with a remembered version\<close>

text \<open>
  C4.  Let no tag filter be set, let the watched paths be set and \<open>lastSeen\<close> be
  present, and let \<open>changed\<close> be the paths that \<open>diff\<close> finds between the branch tip
  and \<open>lastSeen\<close>.  When no watched path is equal, as a string, to a changed path,
  \<open>Check\<close> returns the empty result; otherwise it returns what the commit walk of
  the plain-commit policy returns.
\<close>

theorem path_filter_gating:
  assumes "TagFilter (Source (Input config)) = ''''"
    and "PathSearch (Source (Input config)) = Some ps"
    and "Ref (Version (Input config)) \<noteq> ''''"
    and "diff env (defaultBranch config) = Inr changed"
  shows "(set changed \<inter> set ps = {} \<longrightarrow> Check env config = Inr []) \<and>
         (set changed \<inter> set ps \<noteq> {} \<longrightarrow>
            Check env config = lastCommits env (defaultBranch config))"
  using assms
  by (simp add: Check_paths checkPaths_def defaultBranch_simps checkPaths_range_eq checkCommit_def)

theorem path_filter_gating_witness:
  "diff (ex_env []) (defaultBranch (ex_config '''' (Some [''src/app.go'']) oidA)) = Inr [''docs/readme.md'']
   \<and> Check (ex_env []) (ex_config '''' (Some [''src/app.go'']) oidA) = Inr []
   \<and> Check (ex_env []) (ex_config '''' (Some [''docs'']) oidA) = Inr []
   \<and> Check (ex_env []) (ex_config '''' (Some [''src/app.go'', ''docs/readme.md'']) oidA)
       = lastCommits (ex_env []) (defaultBranch (ex_config '''' (Some [''src/app.go'', ''docs/readme.md'']) oidA))
   \<and> lastCommits (ex_env []) (defaultBranch (ex_config '''' (Some [''src/app.go'', ''docs/readme.md'']) oidA))
       = Inr (map refEntry [oidA, oidB, oidC])"
proof -
  have h1: "TagFilter (Source (Input (ex_config '''' (Some ps) oidA))) = ''''" for ps
    by (simp add: ex_config_def)
  have h2: "PathSearch (Source (Input (ex_config '''' (Some ps) oidA))) = Some ps" for ps
    by (simp add: ex_config_def)
  have h3: "Ref (Version (Input (ex_config '''' (Some ps) oidA))) \<noteq> ''''" for ps
    by (simp add: ex_config_def oidA_def)
  have h4: "diff (ex_env []) (defaultBranch (ex_config '''' (Some ps) oidA)) = Inr [''docs/readme.md'']" for ps
    by (simp add: eval_defs eval_commit_defs ex_defs)
  have l: "lastCommits (ex_env []) (defaultBranch (ex_config '''' (Some ps) oidA))
       = Inr (map refEntry [oidA, oidB, oidC])" for ps
    by (simp add: eval_defs eval_commit_defs ex_defs)
  from path_filter_gating[OF h1 h2 h3 h4, of "[''src/app.go'']"]
       path_filter_gating[OF h1 h2 h3 h4, of "[''docs'']"]
       path_filter_gating[OF h1 h2 h3 h4, of "[''src/app.go'', ''docs/readme.md'']"]
       h4[of "[''src/app.go'']"] l
  show ?thesis by simp
qed

section \<open>Without a remembered version and without a tag filter\<close>

text \<open>
  C5.  Let no tag filter be set and \<open>lastSeen\<close> be absent; the watched paths may be
  set or not.  When the remote-tracking branch resolves to a commit, \<open>Check\<close> returns
  what the plain-commit policy returns: exactly one version, the identifier of that
  commit.
\<close>

theorem bootstrap_returns_tip:
  assumes "TagFilter (Source (Input config)) = ''''"
    and "Ref (Version (Input config)) = ''''"
    and "OpenRepository env (Path config) = Some repo"
    and "References_Lookup repo
           (''refs/remotes/origin/'' @ Branch (Source (Input (defaultBranch config)))) = Some tip"
    and "Target tip = Some oid"
    and "LookupCommit repo oid = Some commit"
  shows "Check env config = checkCommit env (defaultBranch config) \<and>
         Check env config = Inr [refEntry (Id commit)]"
  using assms
  by (cases "PathSearch (Source (Input config))")
     (simp_all add: Check_def checkPaths_def checkCommit_def defaultBranch_simps
        LookupCommit_ptr_def refEntry_def)

theorem bootstrap_returns_tip_witness:
  "References_Lookup (ex_repo []) ''refs/remotes/origin/master'' = Some \<lparr>Target = Some oidC\<rparr>
   \<and> Id (ex_commit oidC treeC 30 ''1970-01-01 00:00:30 +0000 UTC'' ''third'') = oidC
   \<and> Check (ex_env []) (ex_config '''' None '''') = Inr [refEntry oidC]
   \<and> Check (ex_env []) (ex_config '''' (Some [''src/app.go'']) '''') = Inr [refEntry oidC]"
proof -
  have h1: "TagFilter (Source (Input (ex_config '''' ps ''''))) = ''''" for ps
    by (simp add: ex_config_def)
  have h2: "Ref (Version (Input (ex_config '''' ps ''''))) = ''''" for ps
    by (simp add: ex_config_def)
  have h3: "OpenRepository (ex_env []) (Path (ex_config '''' ps '''')) = Some (ex_repo [])" for ps
    by (simp add: ex_config_def ex_env_def)
  have h4: "References_Lookup (ex_repo [])
           (''refs/remotes/origin/'' @ Branch (Source (Input (defaultBranch (ex_config '''' ps '''')))))
           = Some \<lparr>Target = Some oidC\<rparr>" for ps
    by (simp add: ex_config_def ex_repo_def defaultBranch_def)
  have h5: "Target \<lparr>Target = Some oidC\<rparr> = Some oidC" by simp
  have h6: "LookupCommit (ex_repo []) oidC
              = Some (ex_commit oidC treeC 30 ''1970-01-01 00:00:30 +0000 UTC'' ''third'')"
    by (simp add: ex_repo_def oidA_def oidB_def oidC_def)
  have i: "Id (ex_commit oidC treeC 30 ''1970-01-01 00:00:30 +0000 UTC'' ''third'') = oidC"
    by (simp add: ex_commit_def)
  have r: "References_Lookup (ex_repo []) ''refs/remotes/origin/master'' = Some \<lparr>Target = Some oidC\<rparr>"
    by (simp add: ex_repo_def)
  from bootstrap_returns_tip[OF h1 h2 h3 h4 h5 h6, of None, THEN conjunct2]
       bootstrap_returns_tip[OF h1 h2 h3 h4 h5 h6, of "Some [''src/app.go'']", THEN conjunct2] i r
  show ?thesis by simp
qed

section \<open>The choice of the policy\<close>

text \<open>
  C6, as the code has it.  \<open>Check\<close> applies the tag-filter policy when the tag filter
  is not the empty string; otherwise the path-filter policy when the watched paths are
  present, that is a non-\<open>nil\<close> slice, which may be empty; otherwise the plain-commit
  policy.  When the tag filter is set the watched paths have no effect on the result.
  When the watched paths are the empty list and \<open>lastSeen\<close> is present, the path-filter
  policy returns the empty result.
\<close>

theorem policy_precedence:
  "Check env config =
     (if TagFilter (Source (Input config)) \<noteq> '''' then checkTagFilter env (defaultBranch config)
      else if PathSearch (Source (Input config)) \<noteq> None then checkPaths env (defaultBranch config)
      else checkCommit env (defaultBranch config))
   \<and> (TagFilter (Source (Input config)) \<noteq> '''' \<longrightarrow>
        Check env (config\<lparr>Input := (Input config)\<lparr>Source :=
                     (Source (Input config))\<lparr>PathSearch := ps\<rparr>\<rparr>\<rparr>) = Check env config)
   \<and> (TagFilter (Source (Input config)) = '''' \<and> PathSearch (Source (Input config)) = Some [] \<and>
        Ref (Version (Input config)) \<noteq> '''' \<longrightarrow> Check env config = Inr [])"
proof (intro conjI impI)
  show "Check env config =
     (if TagFilter (Source (Input config)) \<noteq> '''' then checkTagFilter env (defaultBranch config)
      else if PathSearch (Source (Input config)) \<noteq> None then checkPaths env (defaultBranch config)
      else checkCommit env (defaultBranch config))"
    by (simp add: Check_def defaultBranch_simps)
next
  let ?c = "config\<lparr>Input := (Input config)\<lparr>Source := (Source (Input config))\<lparr>PathSearch := ps\<rparr>\<rparr>\<rparr>"
  assume t: "TagFilter (Source (Input config)) \<noteq> ''''"
  have "checkTagFilter env (defaultBranch ?c) = checkTagFilter env (defaultBranch config)"
    by (rule checkTagFilter_cong) (simp_all add: defaultBranch_simps)
  with t show "Check env ?c = Check env config"
    by (simp add: Check_def defaultBranch_simps)
next
  assume "TagFilter (Source (Input config)) = '''' \<and> PathSearch (Source (Input config)) = Some [] \<and>
        Ref (Version (Input config)) \<noteq> ''''"
  then show "Check env config = Inr []"
    by (simp add: Check_def checkPaths_def defaultBranch_simps)
qed

text \<open>
  The specification sends an empty list of watched paths to the plain-commit policy.
  With no tag filter, the watched paths \<open>[]\<close> and \<open>lastSeen = oidB\<close>, \<open>Check\<close> returns
  the empty result, whereas the plain-commit policy returns \<open>oidB, oidC\<close>.
\<close>

theorem policy_precedence_counterexample:
  "TagFilter (Source (Input (ex_config '''' (Some []) oidB))) = ''''
   \<and> PathSearch (Source (Input (ex_config '''' (Some []) oidB))) = Some []
   \<and> Check (ex_env []) (ex_config '''' (Some []) oidB) = Inr []
   \<and> checkCommit (ex_env []) (defaultBranch (ex_config '''' (Some []) oidB))
       = Inr [refEntry oidB, refEntry oidC]"
proof -
  have "Check (ex_env []) (ex_config '''' (Some []) oidB) = Inr []"
    by (simp add: eval_defs eval_commit_defs ex_defs)
  moreover have "checkCommit (ex_env []) (defaultBranch (ex_config '''' (Some []) oidB))
       = Inr [refEntry oidB, refEntry oidC]"
    by (simp add: eval_defs eval_commit_defs ex_defs)
  ultimately show ?thesis by (simp add: ex_config_def)
qed

theorem policy_precedence_witness:
  "TagFilter (Source (Input (ex_config ''v.*'' None ''v1.0''))) \<noteq> ''''
   \<and> Check (ex_env ex_tags) (ex_config ''v.*'' (Some [''src/app.go'']) ''v1.0'')
       = Check (ex_env ex_tags) (ex_config ''v.*'' None ''v1.0'')
   \<and> Ref (Version (Input (ex_config '''' (Some []) oidB))) \<noteq> ''''
   \<and> Check (ex_env []) (ex_config '''' (Some []) oidB) = Inr []"
proof -
  let ?c = "ex_config ''v.*'' None ''v1.0''"
  have t: "TagFilter (Source (Input ?c)) \<noteq> ''''" by (simp add: ex_config_def)
  have u: "?c\<lparr>Input := (Input ?c)\<lparr>Source := (Source (Input ?c))\<lparr>PathSearch := Some [''src/app.go'']\<rparr>\<rparr>\<rparr>
             = ex_config ''v.*'' (Some [''src/app.go'']) ''v1.0''"
    by (simp add: ex_config_def)
  note p = policy_precedence[of "ex_env ex_tags" ?c "Some [''src/app.go'']", THEN conjunct2, THEN conjunct1]
  from mp[OF p t] have 1: "Check (ex_env ex_tags) (ex_config ''v.*'' (Some [''src/app.go'']) ''v1.0'')
       = Check (ex_env ex_tags) ?c"
    unfolding u .
  let ?d = "ex_config '''' (Some []) oidB"
  have e: "TagFilter (Source (Input ?d)) = '''' \<and> PathSearch (Source (Input ?d)) = Some [] \<and>
        Ref (Version (Input ?d)) \<noteq> ''''"
    by (simp add: ex_config_def oidB_def)
  note q = policy_precedence[of "ex_env []" ?d None, THEN conjunct2, THEN conjunct2]
  from mp[OF q e] have 2: "Check (ex_env []) ?d = Inr []" .
  from 1 2 t e show ?thesis by blast
qed

section \<open>A remembered version that has dropped out of the tags\<close>

text \<open>
  C7 says that a remembered version that matches no tag name of the filtered set makes
  the result the whole set, oldest first.  The code compares \<open>lastSeen\<close> with the
  reference name trimmed with the cutset \<open>refs/tags/\<close>.  With the tags \<open>v1.0\<close>
  (time 10), \<open>release-2\<close> (time 20) and \<open>v3.0\<close> (time 30), the filter \<open>.*\<close> and
  \<open>lastSeen = lease-2\<close>, which is neither the reference name nor the short name of a
  tag, the walk stops at \<open>release-2\<close>: \<open>Check\<close> returns \<open>lease-2, v3.0\<close>, without
  \<open>v1.0\<close>.
\<close>

theorem dropped_version_trimmed_match:
  "listTags (ex_env ex_tags_release) ''/tmp/repo'' ''.*'' = Inr ex_T_release
   \<and> ''lease-2'' \<notin> Name ` set ex_T_release
   \<and> ''lease-2'' \<notin> shortName ` set ex_T_release
   \<and> Check (ex_env ex_tags_release) (ex_config ''.*'' None ''lease-2'')
       = Inr [refEntry ''lease-2'', refEntry ''v3.0'']"
proof -
  have "listTags (ex_env ex_tags_release) ''/tmp/repo'' ''.*'' = Inr ex_T_release"
    by (simp add: listTags_def tagWhen_def ex_defs)
  moreover have "''lease-2'' \<notin> Name ` set ex_T_release" by (simp add: ex_T_release_def)
  moreover have "''lease-2'' \<notin> shortName ` set ex_T_release"
    by (simp add: ex_T_release_def shortName_def)
  moreover have "Check (ex_env ex_tags_release) (ex_config ''.*'' None ''lease-2'')
       = Inr [refEntry ''lease-2'', refEntry ''v3.0'']"
    by (simp add: eval_defs ex_defs)
  ultimately show ?thesis by blast
qed

section \<open>The metadata of a version\<close>

text \<open>
  C8.  Let the repository open.  When the version names a tag whose target is a commit,
  \<open>GetMetaData\<close> returns the six fields \<open>commit\<close>, \<open>author\<close>, \<open>date\<close>, \<open>branch\<close>, \<open>tag\<close>,
  \<open>message\<close> in this order, with the version string as the value of \<open>tag\<close>; when no
  tag has this name and the version is the identifier of a commit, it returns the same
  six fields with the empty string as the value of \<open>tag\<close>.  Whenever it returns, the
  result has these six names in this order, each entry has exactly a name and a value,
  and the value of \<open>branch\<close> is the configured branch.
\<close>

theorem metadata_fields:
  assumes "OpenRepository env path = Some repo"
  shows "(\<forall>r oid c. References_Lookup repo (''refs/tags/'' @ Ref (Version input)) = Some r \<and>
            Target r = Some oid \<and> LookupCommit repo oid = Some c \<longrightarrow>
            GetMetaData env path input =
              Inr [metaField ''commit'' (Id c), metaField ''author'' (sig_Name (Committer c)),
                   metaField ''date'' (String (sig_When (Committer c))),
                   metaField ''branch'' (Branch (Source input)),
                   metaField ''tag'' (Ref (Version input)),
                   metaField ''message'' (Message c)])
       \<and> (\<forall>oid c. References_Lookup repo (''refs/tags/'' @ Ref (Version input)) = None \<and>
            NewOid env (Ref (Version input)) = Some oid \<and> LookupCommit repo oid = Some c \<longrightarrow>
            GetMetaData env path input =
              Inr [metaField ''commit'' (Id c), metaField ''author'' (sig_Name (Committer c)),
                   metaField ''date'' (String (sig_When (Committer c))),
                   metaField ''branch'' (Branch (Source input)),
                   metaField ''tag'' '''',
                   metaField ''message'' (Message c)])
       \<and> (\<forall>res. GetMetaData env path input = Inr res \<longrightarrow>
            map (\<lambda>m. m ''name'') res =
              [Some ''commit'', Some ''author'', Some ''date'', Some ''branch'', Some ''tag'',
               Some ''message''] \<and>
            (\<forall>m\<in>set res. dom m = {''name'', ''value''}) \<and>
            (res ! 3) ''value'' = Some (Branch (Source input)))"
proof (intro conjI allI impI)
  fix r oid c
  assume "References_Lookup repo (''refs/tags/'' @ Ref (Version input)) = Some r \<and>
            Target r = Some oid \<and> LookupCommit repo oid = Some c"
  then show "GetMetaData env path input =
              Inr [metaField ''commit'' (Id c), metaField ''author'' (sig_Name (Committer c)),
                   metaField ''date'' (String (sig_When (Committer c))),
                   metaField ''branch'' (Branch (Source input)),
                   metaField ''tag'' (Ref (Version input)),
                   metaField ''message'' (Message c)]"
    using GetMetaData_eq[OF assms, of input c] by (simp add: LookupCommit_ptr_def)
next
  fix oid c
  assume "References_Lookup repo (''refs/tags/'' @ Ref (Version input)) = None \<and>
            NewOid env (Ref (Version input)) = Some oid \<and> LookupCommit repo oid = Some c"
  then show "GetMetaData env path input =
              Inr [metaField ''commit'' (Id c), metaField ''author'' (sig_Name (Committer c)),
                   metaField ''date'' (String (sig_When (Committer c))),
                   metaField ''branch'' (Branch (Source input)),
                   metaField ''tag'' '''',
                   metaField ''message'' (Message c)]"
    using GetMetaData_eq[OF assms, of input c] by (simp add: LookupCommit_ptr_def)
next
  fix res
  assume res: "GetMetaData env path input = Inr res"
  then obtain c where c: "LookupCommit_ptr repo
           (case References_Lookup repo (''refs/tags/'' @ Ref (Version input)) of
              Some r \<Rightarrow> Target r | None \<Rightarrow> NewOid env (Ref (Version input))) = Inr c"
    using assms by (auto simp: GetMetaData_def Let_def split: sum.splits)
  note eq = GetMetaData_eq[OF assms c]
  from res eq have r: "res =
     [metaField ''commit'' (Id c), metaField ''author'' (sig_Name (Committer c)),
      metaField ''date'' (String (sig_When (Committer c))),
      metaField ''branch'' (Branch (Source input)),
      metaField ''tag''
        (if References_Lookup repo (''refs/tags/'' @ Ref (Version input)) \<noteq> None
         then Ref (Version input) else []),
      metaField ''message'' (Message c)]"
    by simp
  show "map (\<lambda>m. m ''name'') res =
              [Some ''commit'', Some ''author'', Some ''date'', Some ''branch'', Some ''tag'',
               Some ''message'']"
    unfolding r by (simp add: metaField_name)
  show "\<forall>m\<in>set res. dom m = {''name'', ''value''}"
    unfolding r by (simp add: metaField_dom)
  show "(res ! 3) ''value'' = Some (Branch (Source input))"
    unfolding r by (simp add: metaField_value)
qed

theorem metadata_fields_witness:
  "OpenRepository (ex_env ex_tags) ''/tmp/repo'' = Some (ex_repo ex_tags)
   \<and> References_Lookup (ex_repo ex_tags) ''refs/tags/v1.0'' = Some \<lparr>Target = Some oidA\<rparr>
   \<and> GetMetaData (ex_env ex_tags) ''/tmp/repo'' (Input (defaultBranch (ex_config '''' None ''v1.0'')))
       = Inr [metaField ''commit'' oidA, metaField ''author'' ''alice'',
              metaField ''date'' ''1970-01-01 00:00:10 +0000 UTC'',
              metaField ''branch'' ''master'', metaField ''tag'' ''v1.0'',
              metaField ''message'' ''first'']
   \<and> References_Lookup (ex_repo ex_tags) (''refs/tags/'' @ oidB) = None
   \<and> NewOid (ex_env ex_tags) oidB = Some oidB
   \<and> GetMetaData (ex_env ex_tags) ''/tmp/repo'' (Input (defaultBranch (ex_config '''' None oidB)))
       = Inr [metaField ''commit'' oidB, metaField ''author'' ''alice'',
              metaField ''date'' ''1970-01-01 00:00:20 +0000 UTC'',
              metaField ''branch'' ''master'', metaField ''tag'' '''',
              metaField ''message'' ''second'']
   \<and> map (\<lambda>m. m ''name'')
         [metaField ''commit'' oidA, metaField ''author'' ''alice'',
          metaField ''date'' ''1970-01-01 00:00:10 +0000 UTC'',
          metaField ''branch'' ''master'', metaField ''tag'' ''v1.0'',
          metaField ''message'' ''first'']
       = [Some ''commit'', Some ''author'', Some ''date'', Some ''branch'', Some ''tag'',
          Some ''message'']"
proof -
  let ?env = "ex_env ex_tags" and ?repo = "ex_repo ex_tags"
  let ?i1 = "Input (defaultBranch (ex_config '''' None ''v1.0''))"
  let ?i2 = "Input (defaultBranch (ex_config '''' None oidB))"
  let ?cA = "ex_commit oidA treeA 10 ''1970-01-01 00:00:10 +0000 UTC'' ''first''"
  let ?cB = "ex_commit oidB treeB 20 ''1970-01-01 00:00:20 +0000 UTC'' ''second''"
  have h: "OpenRepository ?env ''/tmp/repo'' = Some ?repo" by (simp add: ex_env_def)
  have r1: "References_Lookup ?repo ''refs/tags/v1.0'' = Some \<lparr>Target = Some oidA\<rparr>"
    by (simp add: ex_repo_def ex_tags_def)
  have r2: "References_Lookup ?repo (''refs/tags/'' @ oidB) = None"
    by (simp add: ex_repo_def ex_tags_def oidB_def)
  have n2: "NewOid ?env oidB = Some oidB" by (simp add: ex_env_def oidB_def)
  have cA: "LookupCommit ?repo oidA = Some ?cA" by (simp add: ex_repo_def oidA_def)
  have cB: "LookupCommit ?repo oidB = Some ?cB" by (simp add: ex_repo_def oidA_def oidB_def)
  have v1: "Ref (Version ?i1) = ''v1.0''" and v2: "Ref (Version ?i2) = oidB"
    and b1: "Branch (Source ?i1) = ''master''" and b2: "Branch (Source ?i2) = ''master''"
    by (simp_all add: ex_config_def defaultBranch_def)
  have p1: "References_Lookup ?repo (''refs/tags/'' @ Ref (Version ?i1)) = Some \<lparr>Target = Some oidA\<rparr>
            \<and> Target \<lparr>Target = Some oidA\<rparr> = Some oidA \<and> LookupCommit ?repo oidA = Some ?cA"
    using r1 cA by (simp add: v1)
  have p2: "References_Lookup ?repo (''refs/tags/'' @ Ref (Version ?i2)) = None
            \<and> NewOid ?env (Ref (Version ?i2)) = Some oidB \<and> LookupCommit ?repo oidB = Some ?cB"
    using r2 n2 cB by (simp add: v2)
  note tagged = metadata_fields[OF h, of ?i1, THEN conjunct1, THEN spec, THEN spec, THEN spec, THEN mp]
  note plain = metadata_fields[OF h, of ?i2, THEN conjunct2, THEN conjunct1, THEN spec, THEN spec, THEN mp]
  have 1: "GetMetaData ?env ''/tmp/repo'' ?i1
       = Inr [metaField ''commit'' oidA, metaField ''author'' ''alice'',
              metaField ''date'' ''1970-01-01 00:00:10 +0000 UTC'',
              metaField ''branch'' ''master'', metaField ''tag'' ''v1.0'',
              metaField ''message'' ''first'']"
    using tagged[OF p1] by (simp add: v1 b1 ex_commit_def)
  have 2: "GetMetaData ?env ''/tmp/repo'' ?i2
       = Inr [metaField ''commit'' oidB, metaField ''author'' ''alice'',
              metaField ''date'' ''1970-01-01 00:00:20 +0000 UTC'',
              metaField ''branch'' ''master'', metaField ''tag'' '''',
              metaField ''message'' ''second'']"
    using plain[OF p2] by (simp add: v2 b2 ex_commit_def)
  note shape = metadata_fields[OF h, of ?i1, THEN conjunct2, THEN conjunct2, THEN spec, THEN mp,
      OF 1, THEN conjunct1]
  from h r1 1 r2 n2 2 shape show ?thesis by blast
qed

section \<open>Running \<open>Init\<close> twice\<close>

text \<open>
  C9.  \<open>Init\<close> writes the key files only when the fixed location \<open>/root/.ssh/\<close> does
  not exist.  Let \<open>Init\<close> run on a machine \<open>w\<close> and leave \<open>w1\<close>, whether it returns or
  dies, and let it run again on \<open>w1\<close> and leave \<open>w2\<close>.  Then the location exists in
  \<open>w1\<close>, and the second run writes no file: the key files of \<open>w2\<close> are those of \<open>w1\<close>.
  A private key file that is present in \<open>w\<close> makes already the first run write no
  file; and when the first run writes a file, the location and the private key file
  were absent before and the private key file then holds the configured key.
\<close>

theorem init_idempotent:
  assumes "Init os config w = (w1, r1)" and "Init os' config' w1 = (w2, r2)"
  shows "exists w1 sshKeyPath \<and> files w2 = files w1 \<and> keyFiles w2 = keyFiles w1 \<and>
         (ReadFile w (sshKeyPath @ ''id_rsa'') \<noteq> None \<longrightarrow> files w1 = files w) \<and>
         (files w1 \<noteq> files w \<longrightarrow>
            \<not> exists w sshKeyPath \<and> ReadFile w (sshKeyPath @ ''id_rsa'') = None \<and>
            ReadFile w1 (sshKeyPath @ ''id_rsa'') = Some (PrivateKey (Source (Input config))))"
proof (intro conjI impI)
  have w1: "w1 = fst (Init os config w)" and w2: "w2 = fst (Init os' config' w1)"
    using assms by simp_all
  show e: "exists w1 sshKeyPath" unfolding w1 by (rule Init_exists)
  show f: "files w2 = files w1" unfolding w2 using e by (rule Init_skips(1))
  then show "keyFiles w2 = keyFiles w1" by (simp add: keyFiles_def ReadFile_def)
  {
    assume "ReadFile w (sshKeyPath @ ''id_rsa'') \<noteq> None"
    then have "exists w sshKeyPath" by (rule key_present_exists)
    then show "files w1 = files w" unfolding w1 by (rule Init_skips(1))
  }
  {
    assume ne: "files w1 \<noteq> files w"
    show n: "\<not> exists w sshKeyPath"
    proof
      assume "exists w sshKeyPath"
      then have "files w1 = files w" unfolding w1 by (rule Init_skips(1))
      with ne show False by simp
    qed
    show "ReadFile w (sshKeyPath @ ''id_rsa'') = None"
      using n key_present_exists by blast
    show "ReadFile w1 (sshKeyPath @ ''id_rsa'') = Some (PrivateKey (Source (Input config)))"
      unfolding w1 using n by (rule Init_creates(2))
  }
qed

theorem init_idempotent_witness:
  "Init ex_os (ex_config '''' None '''') ex_world
     = (ex_world1, Inr (defaultBranch (ex_config '''' None '''')))
   \<and> Init ex_os (ex_config '''' None '''') ex_world1
     = (ex_world1, Inr (defaultBranch (ex_config '''' None '''')))
   \<and> keyFiles ex_world = (None, None)
   \<and> keyFiles ex_world1 = (Some ''KEY'', Some ''ssh-rsa KEY'')
   \<and> exists ex_world1 sshKeyPath
   \<and> \<not> exists ex_world sshKeyPath
   \<and> ReadFile ex_world_key (sshKeyPath @ ''id_rsa'') = Some ''OTHER''
   \<and> files (fst (Init ex_os (ex_config '''' None '''') ex_world_key)) = files ex_world_key"
proof -
  let ?c = "ex_config '''' None ''''"
  have 1: "Init ex_os ?c ex_world = (ex_world1, Inr (defaultBranch ?c))"
    by (simp add: init_defs)
  have 2: "Init ex_os ?c ex_world1 = (ex_world1, Inr (defaultBranch ?c))"
    by (simp add: init_defs)
  have 3: "keyFiles ex_world = (None, None)" "keyFiles ex_world1 = (Some ''KEY'', Some ''ssh-rsa KEY'')"
    by (simp_all add: init_defs)
  have k: "ReadFile ex_world_key (sshKeyPath @ ''id_rsa'') = Some ''OTHER''"
    by (simp add: init_defs)
  obtain wk rk where 4: "Init ex_os ?c ex_world_key = (wk, rk)"
    by (cases "Init ex_os ?c ex_world_key")
  obtain wk' rk' where 5: "Init ex_os ?c wk = (wk', rk')"
    by (cases "Init ex_os ?c wk")
  from init_idempotent[OF 4 5] k 4 have 6: "files (fst (Init ex_os ?c ex_world_key)) = files ex_world_key"
    by simp
  have 7: "files ex_world1 \<noteq> files ex_world" by (simp add: init_defs)
  from init_idempotent[OF 1 2] 7 have 8: "exists ex_world1 sshKeyPath" "\<not> exists ex_world sshKeyPath"
    by simp_all
  from 1 2 3 k 6 8 show ?thesis by simp
qed

section \<open>The ref strings of the tag-filter policy\<close>

text \<open>
  C10.  Every entry that the tag-filter policy returns is \<open>strings.Trim\<close> of the
  reference name of a tag of the filtered set with the cutset \<open>refs/tags/\<close>, that is
  with the characters r, e, f, s, /, t, a, g: the name is the ref string between a
  prefix and a suffix of such characters, and a non-empty ref string neither begins nor
  ends with one.  For a name \<open>refs/tags/short\<close> the ref string is the trimmed
  \<open>short\<close>, so it differs from \<open>short\<close> whenever \<open>short\<close> begins or ends with one of
  these characters.  The walk of \<open>lastTags\<close> compares \<open>lastSeen\<close> with this trimmed
  string.
\<close>

theorem refs_are_trimmed:
  "(TagFilter (Source (Input config)) \<noteq> '''' \<and>
    listTags env (Path config) (TagFilter (Source (Input config))) = Inr T \<and>
    sorts lastTags_less T (sort_Slice env lastTags_less T) \<and>
    sorts lastTag_less T (sort_Slice env lastTag_less T) \<and>
    Check env config = Inr res \<longrightarrow>
      (\<forall>m\<in>set res. \<exists>t\<in>set T. m = refEntry (Trim (Name t) ''refs/tags/'')))
   \<and> set ''refs/tags/''
        = {CHR ''r'', CHR ''e'', CHR ''f'', CHR ''s'', CHR ''/'', CHR ''t'', CHR ''a'', CHR ''g''}
   \<and> (\<exists>pre suf. name = pre @ Trim name ''refs/tags/'' @ suf \<and>
         set pre \<subseteq> set ''refs/tags/'' \<and> set suf \<subseteq> set ''refs/tags/'')
   \<and> (Trim name ''refs/tags/'' \<noteq> '''' \<longrightarrow>
         hd (Trim name ''refs/tags/'') \<notin> set ''refs/tags/'' \<and>
         last (Trim name ''refs/tags/'') \<notin> set ''refs/tags/'')
   \<and> Trim (''refs/tags/'' @ short) ''refs/tags/'' = Trim short ''refs/tags/''
   \<and> (short \<noteq> '''' \<and> (hd short \<in> set ''refs/tags/'' \<or> last short \<in> set ''refs/tags/'') \<longrightarrow>
         Trim (''refs/tags/'' @ short) ''refs/tags/'' \<noteq> short)
   \<and> lastTags_range ref (t # ts) acc =
        (if ref = Trim (Name t) ''refs/tags/''
         then refEntry (Trim (Name t) ''refs/tags/'') # acc
         else lastTags_range ref ts (refEntry (Trim (Name t) ''refs/tags/'') # acc))"
proof (intro conjI impI)
  assume "TagFilter (Source (Input config)) \<noteq> '''' \<and>
    listTags env (Path config) (TagFilter (Source (Input config))) = Inr T \<and>
    sorts lastTags_less T (sort_Slice env lastTags_less T) \<and>
    sorts lastTag_less T (sort_Slice env lastTag_less T) \<and>
    Check env config = Inr res"
  then show "\<forall>m\<in>set res. \<exists>t\<in>set T. m = refEntry (Trim (Name t) ''refs/tags/'')"
    using checkTagFilter_refs by blast
next
  show "set ''refs/tags/''
        = {CHR ''r'', CHR ''e'', CHR ''f'', CHR ''s'', CHR ''/'', CHR ''t'', CHR ''a'', CHR ''g''}"
    by (rule cutset_chars)
next
  show "\<exists>pre suf. name = pre @ Trim name ''refs/tags/'' @ suf \<and>
         set pre \<subseteq> set ''refs/tags/'' \<and> set suf \<subseteq> set ''refs/tags/''"
    by (rule Trim_decomp)
next
  assume ne: "Trim name ''refs/tags/'' \<noteq> ''''"
  have cs: "''refs/tags/'' \<noteq> ''''" by simp
  from Trim_ends[OF cs ne] show "hd (Trim name ''refs/tags/'') \<notin> set ''refs/tags/''"
    and "last (Trim name ''refs/tags/'') \<notin> set ''refs/tags/''" by blast+
next
  show p: "Trim (''refs/tags/'' @ short) ''refs/tags/'' = Trim short ''refs/tags/''"
    by (rule Trim_prefix) simp
  assume a: "short \<noteq> '''' \<and> (hd short \<in> set ''refs/tags/'' \<or> last short \<in> set ''refs/tags/'')"
  show "Trim (''refs/tags/'' @ short) ''refs/tags/'' \<noteq> short"
  proof
    assume e: "Trim (''refs/tags/'' @ short) ''refs/tags/'' = short"
    have cs: "''refs/tags/'' \<noteq> ''''" by simp
    from e a have ne: "Trim (''refs/tags/'' @ short) ''refs/tags/'' \<noteq> ''''" by simp
    from Trim_ends[OF cs ne] e a show False by simp
  qed
next
  show "lastTags_range ref (t # ts) acc =
        (if ref = Trim (Name t) ''refs/tags/''
         then refEntry (Trim (Name t) ''refs/tags/'') # acc
         else lastTags_range ref ts (refEntry (Trim (Name t) ''refs/tags/'') # acc))"
    by (simp add: Let_def refEntry_def)
qed

theorem refs_are_trimmed_witness:
  "listTags (ex_env ex_tags_release) ''/tmp/repo'' ''.*'' = Inr ex_T_release
   \<and> Check (ex_env ex_tags_release) (ex_config ''.*'' None ''lease-2'')
       = Inr [refEntry ''lease-2'', refEntry ''v3.0'']
   \<and> (\<exists>t\<in>set ex_T_release. refEntry ''lease-2'' = refEntry (Trim (Name t) ''refs/tags/''))
   \<and> hd ''release-2'' \<in> set ''refs/tags/''
   \<and> Trim (''refs/tags/'' @ ''release-2'') ''refs/tags/'' \<noteq> ''release-2''
   \<and> Trim ''refs/tags/release-2'' ''refs/tags/'' = ''lease-2''
   \<and> hd (Trim ''refs/tags/release-2'' ''refs/tags/'') \<notin> set ''refs/tags/''"
proof -
  let ?env = "ex_env ex_tags_release" and ?c = "ex_config ''.*'' None ''lease-2''"
  let ?res = "[refEntry ''lease-2'', refEntry ''v3.0'']"
  have l: "listTags ?env ''/tmp/repo'' ''.*'' = Inr ex_T_release"
    by (simp add: listTags_def tagWhen_def ex_defs)
  have c: "Check ?env ?c = Inr ?res"
    by (simp add: eval_defs ex_defs)
  have t: "Trim ''refs/tags/release-2'' ''refs/tags/'' = ''lease-2''"
    by (simp add: Trim_def trimLeft_def trimRight_def)
  note inst = refs_are_trimmed[where env = ?env and config = ?c and T = ex_T_release
      and res = ?res and name = "''refs/tags/release-2''" and short = "''release-2''"]
  have h: "TagFilter (Source (Input ?c)) \<noteq> '''' \<and>
    listTags ?env (Path ?c) (TagFilter (Source (Input ?c))) = Inr ex_T_release \<and>
    sorts lastTags_less ex_T_release (sort_Slice ?env lastTags_less ex_T_release) \<and>
    sorts lastTag_less ex_T_release (sort_Slice ?env lastTag_less ex_T_release) \<and>
    Check ?env ?c = Inr ?res"
    using l c ex_sorts_desc ex_sorts_asc by (simp add: ex_config_def)
  from mp[OF inst[THEN conjunct1] h]
  have 1: "\<exists>t\<in>set ex_T_release. refEntry ''lease-2'' = refEntry (Trim (Name t) ''refs/tags/'')"
    by simp
  have s: "''release-2'' \<noteq> '''' \<and>
      (hd ''release-2'' \<in> set ''refs/tags/'' \<or> last ''release-2'' \<in> set ''refs/tags/'')"
    by simp
  note differs = inst[THEN conjunct2, THEN conjunct2, THEN conjunct2, THEN conjunct2,
      THEN conjunct2, THEN conjunct1]
  from mp[OF differs s]
  have 2: "Trim (''refs/tags/'' @ ''release-2'') ''refs/tags/'' \<noteq> ''release-2''" .
  have 3: "hd ''release-2'' \<in> set ''refs/tags/''" by simp
  have 4: "hd (Trim ''refs/tags/release-2'' ''refs/tags/'') \<notin> set ''refs/tags/''"
    unfolding t by simp
  from l c 1 2 3 4 t show ?thesis by blast
qed

end
